theory Spec2Isabelle
  imports Main
begin

section \<open>The Mertens notebook: prime factors, Moebius function, summatory function\<close>

text \<open>
  The notebook \<^verbatim>\<open>mertens/Mertens.ipynb\<close> defines, in Python 3,
  \<^verbatim>\<open>
  def sieve(s):
      n = next(s)
      yield n
      yield from sieve(i for i in s if i%n!=0)

  def prime_factors(n):
      if n == 1:
          return []
      factors = []
      while n != 1:
          for p in sieve(itertools.count(start=2)):
              if n%p==0:
                  factors.append(p)
                  n/=p
                  break
      return factors

  def mu(n):
      factors = prime_factors(n)
      l = len(factors)
      if l != len(set(factors)):
          return 0
      if l%2 == 0:
          return 1
      else:
          return -1

  def M(n):
      if n==1:
          return mu(n)
      else:
          return mu(n) + M(n-1)
  \<close>
  The argument \<open>n\<close> is a Python integer (unbounded). A call either returns a value,
  raises an exception, or does not return; the result type below has one value for each:
  \<open>Some (Inr v)\<close>, \<open>Some (Inl e)\<close> and \<open>None\<close>. The functions are first defined with
  a call stack of any depth, and then once more with the interpreter's limit on it.
\<close>

datatype error = OverflowError | RecursionError

type_synonym 'a result = "(error + 'a) option"

subsection \<open>Numbers\<close>

text \<open>
  \<^verbatim>\<open>n/=p\<close> is Python 3 true division: its result is a float (an IEEE double), also when
  both operands are integers and the quotient is exact. The variable \<open>n\<close> of
  \<open>prime_factors\<close> therefore holds an integer before the first division and a float after
  it. Every float that occurs has an integer value, and the model keeps that integer.
\<close>

datatype number = PyInt int | PyFloat int

fun num_value :: "number \<Rightarrow> int" where
  "num_value (PyInt n) = n"
| "num_value (PyFloat x) = x"

text \<open>
  \<open>round_double q\<close> is the double nearest to the integer \<open>q\<close>: \<open>q\<close> itself when it has at
  most 53 bits, and otherwise \<open>q\<close> rounded to 53 bits, a tie going to the even mantissa.
\<close>

fun bit_length :: "nat \<Rightarrow> nat" where
  "bit_length a = (if a = 0 then 0 else Suc (bit_length (a div 2)))"

declare bit_length.simps [simp del]

definition round_half_even :: "nat \<Rightarrow> nat \<Rightarrow> nat" where
  "round_half_even a e =
     (let m = a div 2 ^ e; r = a mod 2 ^ e; h = 2 ^ (e - 1)
      in (if h < r then m + 1 else if r = h \<and> odd m then m + 1 else m) * 2 ^ e)"

definition round_double :: "int \<Rightarrow> int" where
  "round_double q =
     (if bit_length (nat \<bar>q\<bar>) \<le> 53 then q
      else sgn q * int (round_half_even (nat \<bar>q\<bar>) (bit_length (nat \<bar>q\<bar>) - 53)))"

text \<open>
  Where a float meets an integer, Python converts the integer to a float first: to the
  nearest double, and with \<^verbatim>\<open>OverflowError\<close> when that is \<open>2 ^ 1024\<close> or more.
\<close>

definition to_float :: "int \<Rightarrow> error + int" where
  "to_float k =
     (if 2 ^ 1024 \<le> \<bar>round_double k\<bar> then Inl OverflowError else Inr (round_double k))"

text \<open>
  \<^verbatim>\<open>n%p==0\<close>. On two integers \<^verbatim>\<open>%\<close> is exact. On a float and an integer \<open>p\<close> it is the
  exact remainder of the float by the float of \<open>p\<close>. The sieve only yields numbers from 2
  on, so the divisor is never 0.
\<close>

fun is_multiple :: "number \<Rightarrow> int \<Rightarrow> error + bool" where
  "is_multiple (PyInt n) p = Inr (n mod p = 0)"
| "is_multiple (PyFloat x) p =
     (case to_float p of Inl e \<Rightarrow> Inl e | Inr p' \<Rightarrow> Inr (x mod p' = 0))"

text \<open>
  \<^verbatim>\<open>n/p\<close>, which the loop executes only after \<^verbatim>\<open>n%p==0\<close>: the exact quotient is an
  integer, and the result is the double nearest to it. The quotient of two integers
  raises \<^verbatim>\<open>OverflowError\<close> when that double would be \<open>2 ^ 1024\<close> or more; the quotient of
  a float by a number from 2 on is smaller than the float.
\<close>

fun true_div :: "number \<Rightarrow> int \<Rightarrow> error + number" where
  "true_div (PyInt n) p =
     (if 2 ^ 1024 \<le> \<bar>round_double (n div p)\<bar> then Inl OverflowError
      else Inr (PyFloat (round_double (n div p))))"
| "true_div (PyFloat x) p =
     (case to_float p of
        Inl e \<Rightarrow> Inl e
      | Inr p' \<Rightarrow> Inr (PyFloat (round_double (x div p'))))"

subsection \<open>The sieve generator\<close>

text \<open>
  \<^verbatim>\<open>sieve(itertools.count(start=2))\<close> is a chain of generators: the counter, then
  one filter \<^verbatim>\<open>(i for i in s if i%n!=0)\<close> for each number the sieve has yielded so
  far, the oldest innermost. Its state is the next value \<open>c\<close> of the counter and the
  list \<open>ps\<close> of the numbers yielded so far. Asking for the next element draws values
  from the counter until one passes every filter; that value is yielded and becomes a
  new filter. Nothing bounds the search, so it is a partial function. The result is the
  yielded number and the new state.
\<close>

partial_function (option) sieve_next ::
    "int \<Rightarrow> int list \<Rightarrow> (int \<times> int \<times> int list) option" where
  "sieve_next c ps =
     (if list_all (\<lambda>p. c mod p \<noteq> 0) ps then Some (c, c + 1, ps @ [c])
      else sieve_next (c + 1) ps)"

subsection \<open>prime_factors\<close>

text \<open>
  The \<^verbatim>\<open>for\<close> loop runs through the sieve until it meets a \<open>p\<close> with
  \<^verbatim>\<open>n%p==0\<close> and leaves by \<^verbatim>\<open>break\<close>; \<open>for_loop\<close> returns that \<open>p\<close>. The body
  of the \<^verbatim>\<open>while\<close> loop then appends \<open>p\<close> and divides. Each round of the
  \<^verbatim>\<open>while\<close> loop starts a fresh sieve.
\<close>

partial_function (option) for_loop :: "int \<Rightarrow> int list \<Rightarrow> number \<Rightarrow> int result" where
  "for_loop c ps n =
     Option.bind (sieve_next c ps)
       (\<lambda>(p, c', ps').
          case is_multiple n p of
            Inl e \<Rightarrow> Some (Inl e)
          | Inr b \<Rightarrow> if b then Some (Inr p) else for_loop c' ps' n)"

partial_function (option) while_loop :: "number \<Rightarrow> int list \<Rightarrow> int list result" where
  "while_loop n factors =
     (if num_value n \<noteq> 1 then
        Option.bind (for_loop 2 [] n)
          (\<lambda>r. case r of
                 Inl e \<Rightarrow> Some (Inl e)
               | Inr p \<Rightarrow>
                   (case true_div n p of
                      Inl e \<Rightarrow> Some (Inl e)
                    | Inr n' \<Rightarrow> while_loop n' (factors @ [p])))
      else Some (Inr factors))"

definition prime_factors :: "int \<Rightarrow> int list result" where
  "prime_factors n = (if n = 1 then Some (Inr []) else while_loop (PyInt n) [])"

subsection \<open>mu and M\<close>

definition mu :: "int \<Rightarrow> int result" where
  "mu n =
     Option.bind (prime_factors n)
       (\<lambda>r. case r of
              Inl e \<Rightarrow> Some (Inl e)
            | Inr factors \<Rightarrow>
                (let l = length factors in
                 if l \<noteq> card (set factors) then Some (Inr 0)
                 else if l mod 2 = 0 then Some (Inr 1)
                 else Some (Inr (- 1))))"

text \<open>Python evaluates \<^verbatim>\<open>mu(n) + M(n-1)\<close> from left to right.\<close>

partial_function (option) M :: "int \<Rightarrow> int result" where
  "M n =
     (if n = 1 then mu n
      else
        Option.bind (mu n)
          (\<lambda>a. case a of
                 Inl e \<Rightarrow> Some (Inl e)
               | Inr x \<Rightarrow>
                   Option.bind (M (n - 1))
                     (\<lambda>b. case b of
                            Inl e \<Rightarrow> Some (Inl e)
                          | Inr y \<Rightarrow> Some (Inr (x + y)))))"

subsection \<open>Results of calls\<close>

text \<open>
  Sequencing of calls: an exception or a call that does not return ends the whole
  computation. \<open>plus_result a b\<close> is \<^verbatim>\<open>a + b\<close> for two calls, the left one first.
\<close>

definition bind_result :: "'a result \<Rightarrow> ('a \<Rightarrow> 'b result) \<Rightarrow> 'b result" where
  "bind_result m f = Option.bind m (\<lambda>r. case r of Inl e \<Rightarrow> Some (Inl e) | Inr v \<Rightarrow> f v)"

definition plus_result :: "int result \<Rightarrow> int result \<Rightarrow> int result" where
  "plus_result a b = bind_result a (\<lambda>x. bind_result b (\<lambda>y. Some (Inr (x + y))))"

fun returns :: "'a result \<Rightarrow> bool" where
  "returns (Some (Inr v)) = True"
| "returns _ = False"

fun value_of :: "int result \<Rightarrow> int" where
  "value_of (Some (Inr v)) = v"
| "value_of _ = 0"

subsection \<open>The sequence of values of M\<close>

text \<open>
  The notebook computes \<^verbatim>\<open>[M(n) for n in ns]\<close> for \<open>ns = 1, \<dots>, N\<close>, each value
  independently of the others; this is \<open>independently [1..N]\<close>.

  \<open>forward_pass\<close> is the single forward accumulation pass that the specification
  describes in its own words, a running total with \<open>acc(1) = mu(1)\<close> and
  \<open>acc(n) = acc(n - 1) + mu(n)\<close>; it is not part of the notebook.
\<close>

fun accumulate :: "int \<Rightarrow> int list \<Rightarrow> int list result" where
  "accumulate prev [] = Some (Inr [])"
| "accumulate prev (n # ns) =
     bind_result (mu n) (\<lambda>m.
       bind_result (accumulate (prev + m) ns) (\<lambda>rest. Some (Inr ((prev + m) # rest))))"

definition forward_pass :: "int \<Rightarrow> int list result" where
  "forward_pass N =
     (if N < 1 then Some (Inr [])
      else bind_result (mu 1) (\<lambda>m.
             bind_result (accumulate m [2..N]) (\<lambda>rest. Some (Inr (m # rest)))))"

fun independently :: "int list \<Rightarrow> int list result" where
  "independently [] = Some (Inr [])"
| "independently (n # ns) =
     bind_result (M n) (\<lambda>v. bind_result (independently ns) (\<lambda>rest. Some (Inr (v # rest))))"

subsection \<open>The recursion limit\<close>

text \<open>
  The interpreter bounds the number of frames on its call stack
  (\<^verbatim>\<open>sys.getrecursionlimit()\<close>, 1000 unless it is changed, and the notebook does not
  change it). A call that would need one more frame raises \<^verbatim>\<open>RecursionError\<close>, and
  nothing in the notebook catches it. The definitions above leave the stack unbounded.
  The ones below are the same functions with one more argument \<open>d\<close>, the number of
  frames that the interpreter still allows where the call is made: the limit less the
  frames in use, which is 999 at the top level of a script.

  A generator takes a frame while it runs. When the sieve has yielded \<open>k\<close> numbers, it
  consists of \<open>k + 1\<close> nested generators \<^verbatim>\<open>sieve(...)\<close>, each delegating to the next by
  \<^verbatim>\<open>yield from\<close>, and of \<open>k\<close> generator expressions \<^verbatim>\<open>(i for i in s if i%n!=0)\<close>, each
  drawing from the one before and the first from the counter. Asking for the next
  number has all of them running at once, \<open>2 * k + 1\<close> frames. The counter and the
  built-in functions take no frame.
\<close>

definition sieve_next_depth ::
    "nat \<Rightarrow> int \<Rightarrow> int list \<Rightarrow> (int \<times> int \<times> int list) result" where
  "sieve_next_depth d c ps =
     (if d < 2 * length ps + 1 then Some (Inl RecursionError)
      else map_option Inr (sieve_next c ps))"

text \<open>The \<^verbatim>\<open>for\<close> loop, with \<open>d\<close> frames left for the generators.\<close>

partial_function (option) for_loop_depth ::
    "nat \<Rightarrow> int \<Rightarrow> int list \<Rightarrow> number \<Rightarrow> int result" where
  "for_loop_depth d c ps n =
     Option.bind (sieve_next_depth d c ps)
       (\<lambda>y. case y of
              Inl e \<Rightarrow> Some (Inl e)
            | Inr (p, c', ps') \<Rightarrow>
                (case is_multiple n p of
                   Inl e \<Rightarrow> Some (Inl e)
                 | Inr b \<Rightarrow> if b then Some (Inr p) else for_loop_depth d c' ps' n))"

partial_function (option) while_loop_depth ::
    "nat \<Rightarrow> number \<Rightarrow> int list \<Rightarrow> int list result" where
  "while_loop_depth d n factors =
     (if num_value n \<noteq> 1 then
        Option.bind (for_loop_depth d 2 [] n)
          (\<lambda>r. case r of
                 Inl e \<Rightarrow> Some (Inl e)
               | Inr p \<Rightarrow>
                   (case true_div n p of
                      Inl e \<Rightarrow> Some (Inl e)
                    | Inr n' \<Rightarrow> while_loop_depth d n' (factors @ [p])))
      else Some (Inr factors))"

text \<open>
  A call of \<open>prime_factors\<close>, \<open>mu\<close> or \<open>M\<close> takes one frame, and leaves \<open>d - 1\<close> to
  what it calls.
\<close>

definition prime_factors_depth :: "nat \<Rightarrow> int \<Rightarrow> int list result" where
  "prime_factors_depth d n =
     (if d = 0 then Some (Inl RecursionError)
      else if n = 1 then Some (Inr [])
      else while_loop_depth (d - 1) (PyInt n) [])"

definition mu_depth :: "nat \<Rightarrow> int \<Rightarrow> int result" where
  "mu_depth d n =
     (if d = 0 then Some (Inl RecursionError)
      else
        Option.bind (prime_factors_depth (d - 1) n)
          (\<lambda>r. case r of
                 Inl e \<Rightarrow> Some (Inl e)
               | Inr factors \<Rightarrow>
                   (let l = length factors in
                    if l \<noteq> card (set factors) then Some (Inr 0)
                    else if l mod 2 = 0 then Some (Inr 1)
                    else Some (Inr (- 1)))))"

fun M_depth :: "nat \<Rightarrow> int \<Rightarrow> int result" where
  "M_depth d n =
     (if d = 0 then Some (Inl RecursionError)
      else if n = 1 then mu_depth (d - 1) n
      else
        Option.bind (mu_depth (d - 1) n)
          (\<lambda>a. case a of
                 Inl e \<Rightarrow> Some (Inl e)
               | Inr x \<Rightarrow>
                   Option.bind (M_depth (d - 1) (n - 1))
                     (\<lambda>b. case b of
                            Inl e \<Rightarrow> Some (Inl e)
                          | Inr y \<Rightarrow> Some (Inr (x + y)))))"

declare M_depth.simps [simp del]

text \<open>
  The two sequences of values, with \<open>d\<close> frames left where \<open>mu\<close> and \<open>M\<close> are called.
\<close>

fun accumulate_depth :: "nat \<Rightarrow> int \<Rightarrow> int list \<Rightarrow> int list result" where
  "accumulate_depth d prev [] = Some (Inr [])"
| "accumulate_depth d prev (n # ns) =
     bind_result (mu_depth d n) (\<lambda>m.
       bind_result (accumulate_depth d (prev + m) ns)
         (\<lambda>rest. Some (Inr ((prev + m) # rest))))"

definition forward_pass_depth :: "nat \<Rightarrow> int \<Rightarrow> int list result" where
  "forward_pass_depth d N =
     (if N < 1 then Some (Inr [])
      else bind_result (mu_depth d 1) (\<lambda>m.
             bind_result (accumulate_depth d m [2..N]) (\<lambda>rest. Some (Inr (m # rest)))))"

fun independently_depth :: "nat \<Rightarrow> int list \<Rightarrow> int list result" where
  "independently_depth d [] = Some (Inr [])"
| "independently_depth d (n # ns) =
     bind_result (M_depth d n) (\<lambda>v.
       bind_result (independently_depth d ns) (\<lambda>rest. Some (Inr (v # rest))))"

subsection \<open>Notions for the proofs\<close>

text \<open>
  None of the following is part of the notebook.

  \<open>least_factor d n\<close> searches \<open>d, d + 1, \<dots>\<close> for a divisor of \<open>n\<close>, and stops at
  \<open>n\<close> at the latest. The proofs use \<open>least_factor 2 n\<close> to name the number that the
  \<^verbatim>\<open>for\<close> loop finds.
\<close>

function least_factor :: "int \<Rightarrow> int \<Rightarrow> int" where
  "least_factor d n = (if n \<le> d \<or> n mod d = 0 then d else least_factor (d + 1) n)"
  by pat_completeness auto
termination
  by (relation "measure (\<lambda>(d, n). nat (n - d))") auto

declare least_factor.simps [simp del]

text \<open>
  A float that the loop can hold is below \<open>2 ^ 53\<close> or even. \<open>fits n p\<close> says that
  converting \<open>p\<close> for an operation with \<open>n\<close> is exact.
\<close>

fun float_ok :: "number \<Rightarrow> bool" where
  "float_ok (PyInt n) = True"
| "float_ok (PyFloat x) = (\<bar>x\<bar> < 2 ^ 53 \<or> even x)"

fun fits :: "number \<Rightarrow> int \<Rightarrow> bool" where
  "fits (PyInt n) p = True"
| "fits (PyFloat x) p = (\<bar>p\<bar> \<le> 2 ^ 53)"

text \<open>
  \<open>divide_out n fs p\<close> is the rest of the \<^verbatim>\<open>while\<close> loop once the \<^verbatim>\<open>for\<close> loop has
  found \<open>p\<close>; it only serves to evaluate the loop on concrete arguments.
\<close>

definition divide_out :: "number \<Rightarrow> int list \<Rightarrow> int \<Rightarrow> int list result" where
  "divide_out n fs p =
     (case true_div n p of
        Inl e \<Rightarrow> Some (Inl e)
      | Inr n' \<Rightarrow> while_loop n' (fs @ [p]))"

text \<open>
  \<open>sieve_bound c\<close> bounds the number of values below \<open>c\<close> that the sieve has yielded:
  they are 2, 3 and numbers that neither 2 nor 3 divides.
\<close>

definition sieve_bound :: "int \<Rightarrow> int" where
  "sieve_bound c = (if c \<le> 4 then c - 2 else 2 + c div 6 + (c - 2) div 6)"

text \<open>
  Primes, as the statements below need them: a number from 2 on that no number between 2
  and itself divides.
\<close>

definition is_prime :: "int \<Rightarrow> bool" where
  "is_prime p \<longleftrightarrow> 2 \<le> p \<and> (\<forall>d. 2 \<le> d \<and> d < p \<longrightarrow> \<not> d dvd p)"

section \<open>Rounding to a double\<close>

lemma bit_length_upper: "a < 2 ^ bit_length a"
proof (induction a rule: bit_length.induct)
  case (1 a)
  show ?case
  proof (cases "a = 0")
    case True
    then show ?thesis by (simp add: bit_length.simps)
  next
    case False
    with 1 have "a div 2 < 2 ^ bit_length (a div 2)" by simp
    then have "a < 2 * 2 ^ bit_length (a div 2)" by linarith
    with False show ?thesis by (simp add: bit_length.simps[of a])
  qed
qed

lemma bit_length_lower: "0 < a \<Longrightarrow> 2 ^ (bit_length a - 1) \<le> a"
proof (induction a rule: bit_length.induct)
  case (1 a)
  then have pos: "a \<noteq> 0" by simp
  show ?case
  proof (cases "a div 2 = 0")
    case True
    then show ?thesis using pos 1(2) by (simp add: bit_length.simps[of a] bit_length.simps[of 0])
  next
    case False
    with 1(1)[OF pos] have ih: "2 ^ (bit_length (a div 2) - 1) \<le> a div 2" by simp
    from False have "bit_length (a div 2) \<noteq> 0" by (simp add: bit_length.simps[of "a div 2"])
    then obtain k where k: "bit_length (a div 2) = Suc k" by (cases "bit_length (a div 2)") auto
    from ih k have "2 * 2 ^ k \<le> 2 * (a div 2)" by simp
    also have "\<dots> \<le> a" by simp
    finally show ?thesis using pos k by (simp add: bit_length.simps[of a])
  qed
qed

lemma bit_length_small: "a < 2 ^ k \<Longrightarrow> bit_length a \<le> k"
proof (cases "a = 0")
  case True
  then show ?thesis by (simp add: bit_length.simps)
next
  case False
  assume "a < 2 ^ k"
  moreover from False have "2 ^ (bit_length a - 1) \<le> a" by (intro bit_length_lower) simp
  ultimately have "(2::nat) ^ (bit_length a - 1) < 2 ^ k" by linarith
  then have "bit_length a - 1 < k" by (rule power_less_imp_less_exp[rotated]) simp
  then show ?thesis by linarith
qed

lemma round_half_even_lower: "(a div 2 ^ e) * 2 ^ e \<le> round_half_even a e"
  by (simp add: round_half_even_def Let_def)

lemma round_half_even_upper: "round_half_even a e \<le> a + 2 ^ e"
proof -
  have "(a div 2 ^ e) * 2 ^ e \<le> a" by simp
  moreover have "round_half_even a e \<le> (a div 2 ^ e + 1) * 2 ^ e"
    by (simp add: round_half_even_def Let_def)
  moreover have "(a div 2 ^ e + 1) * 2 ^ e = (a div 2 ^ e) * 2 ^ e + 2 ^ e"
    by (simp add: algebra_simps)
  ultimately show ?thesis by linarith
qed

lemma round_double_exact: "\<bar>q\<bar> < 2 ^ 53 \<Longrightarrow> round_double q = q"
proof -
  assume "\<bar>q\<bar> < 2 ^ 53"
  then have "nat \<bar>q\<bar> < 2 ^ 53" by (simp add: nat_less_iff)
  then have "bit_length (nat \<bar>q\<bar>) \<le> 53" by (rule bit_length_small)
  then show ?thesis by (simp add: round_double_def)
qed

lemma round_double_nonpos: "q \<le> 0 \<Longrightarrow> round_double q \<le> 0"
  by (simp add: round_double_def sgn_if mult_le_0_iff)

lemma round_double_pos_cases:
  assumes "1 \<le> q"
  obtains "round_double q = q"
  | e where "0 < e" "2 ^ (e + 52) \<le> nat q" "round_double q = int (round_half_even (nat q) e)"
proof (cases "bit_length (nat \<bar>q\<bar>) \<le> 53")
  case True
  then have "round_double q = q" by (simp add: round_double_def)
  then show ?thesis by (rule that(1))
next
  case False
  define e where "e = bit_length (nat q) - 53"
  from assms have aq: "\<bar>q\<bar> = q" by simp
  from False aq have e: "0 < e" "bit_length (nat q) - 1 = e + 52" by (simp_all add: e_def)
  from assms have "0 < nat q" by simp
  from bit_length_lower[OF this] e have "2 ^ (e + 52) \<le> nat q" by simp
  moreover from False assms have "round_double q = int (round_half_even (nat q) e)"
    by (simp add: round_double_def e_def)
  ultimately show ?thesis using e(1) that(2) by blast
qed

lemma round_double_ge_1:
  assumes q: "1 \<le> q"
  shows "1 \<le> round_double q"
proof (rule round_double_pos_cases[OF q])
  assume "round_double q = q"
  with q show ?thesis by simp
next
  fix e
  assume e: "0 < e" "2 ^ (e + 52) \<le> nat q" "round_double q = int (round_half_even (nat q) e)"
  have "(2::nat) ^ e \<le> 2 ^ (e + 52)" by simp
  with e(2) have "2 ^ e \<le> nat q" by linarith
  then have "1 \<le> nat q div 2 ^ e" by (simp add: div_greater_zero_iff Suc_le_eq)
  then have "1 * 2 ^ e \<le> (nat q div 2 ^ e) * 2 ^ e" by (rule mult_le_mono1)
  with round_half_even_lower[of "nat q" e] have "1 \<le> round_half_even (nat q) e"
    by (metis One_nat_def Suc_le_eq le_trans mult_1 zero_less_numeral zero_less_power)
  with e(3) show "1 \<le> round_double q" by simp
qed

lemma round_double_less_double:
  assumes q: "1 \<le> q"
  shows "round_double q < 2 * q"
proof (rule round_double_pos_cases[OF q])
  assume "round_double q = q"
  with q show ?thesis by simp
next
  fix e
  assume e: "0 < e" "2 ^ (e + 52) \<le> nat q" "round_double q = int (round_half_even (nat q) e)"
  have "(2::nat) ^ e < 2 ^ (e + 52)" by simp
  with e(2) have "2 ^ e < nat q" by linarith
  with round_half_even_upper[of "nat q" e] have "round_half_even (nat q) e < 2 * nat q" by linarith
  with e(3) q show "round_double q < 2 * q" by linarith
qed

lemma round_double_ge_power:
  assumes "2 ^ k \<le> q"
  shows "2 ^ k \<le> round_double q"
proof -
  from assms have q: "1 \<le> q" by (smt (verit) one_le_power)
  show ?thesis
  proof (rule round_double_pos_cases[OF q])
    assume "round_double q = q"
    with assms show ?thesis by simp
  next
    fix e
    assume e: "0 < e" "2 ^ (e + 52) \<le> nat q" "round_double q = int (round_half_even (nat q) e)"
    from assms q have kq: "2 ^ k \<le> nat q" by (simp add: le_nat_iff)
    have "2 ^ k \<le> (nat q div 2 ^ e) * 2 ^ e"
    proof (cases "e \<le> k")
      case True
      then have "(2::nat) ^ k = 2 ^ (k - e) * 2 ^ e" by (simp flip: power_add)
      with kq have "2 ^ (k - e) * 2 ^ e \<le> nat q" by simp
      then have "2 ^ (k - e) \<le> nat q div 2 ^ e" by (simp add: less_eq_div_iff_mult_less_eq)
      then have "2 ^ (k - e) * 2 ^ e \<le> (nat q div 2 ^ e) * 2 ^ e" by (rule mult_le_mono1)
      with \<open>(2::nat) ^ k = 2 ^ (k - e) * 2 ^ e\<close> show ?thesis by simp
    next
      case False
      then have "(2::nat) ^ k \<le> 2 ^ e" by simp
      have "(2::nat) ^ e \<le> 2 ^ (e + 52)" by simp
      with e(2) have "2 ^ e \<le> nat q" by linarith
      then have "1 \<le> nat q div 2 ^ e" by (simp add: div_greater_zero_iff Suc_le_eq)
      then have "1 * 2 ^ e \<le> (nat q div 2 ^ e) * 2 ^ e" by (rule mult_le_mono1)
      with \<open>(2::nat) ^ k \<le> 2 ^ e\<close> show ?thesis by linarith
    qed
    with round_half_even_lower[of "nat q" e] have "2 ^ k \<le> round_half_even (nat q) e" by linarith
    then have "int (2 ^ k) \<le> int (round_half_even (nat q) e)" by (rule iffD2[OF of_nat_le_iff])
    with e(3) show ?thesis by simp
  qed
qed

lemma round_double_exact_le: "\<bar>q\<bar> \<le> 2 ^ 53 \<Longrightarrow> round_double q = q"
proof (cases "\<bar>q\<bar> < 2 ^ 53")
  case True
  then show ?thesis by (rule round_double_exact)
next
  case False
  assume "\<bar>q\<bar> \<le> 2 ^ 53"
  with False have "q = 2 ^ 53 \<or> q = - (2 ^ 53)" by linarith
  moreover have "round_double (2 ^ 53) = 2 ^ 53" "round_double (- (2 ^ 53)) = - (2 ^ 53)"
    by (simp_all add: round_double_def round_half_even_def bit_length.simps)
  ultimately show ?thesis by auto
qed

lemma round_double_float_ok: "float_ok (PyFloat (round_double q))"
proof (cases "bit_length (nat \<bar>q\<bar>) \<le> 53")
  case True
  have "nat \<bar>q\<bar> < 2 ^ bit_length (nat \<bar>q\<bar>)" by (rule bit_length_upper)
  also have "\<dots> \<le> 2 ^ 53" using True by (intro power_increasing) simp_all
  finally have "\<bar>q\<bar> < 2 ^ 53" by (simp add: nat_less_iff)
  with True show ?thesis by (simp add: round_double_def)
next
  case False
  define e where "e = bit_length (nat \<bar>q\<bar>) - 53"
  from False have "0 < e" by (simp add: e_def)
  then have "even ((2::nat) ^ e)" by simp
  then have "even (round_half_even (nat \<bar>q\<bar>) e)" by (simp add: round_half_even_def Let_def)
  with False show ?thesis by (simp add: round_double_def e_def)
qed

section \<open>Conversion, remainder and division\<close>

lemma to_float_exact: "\<bar>k\<bar> \<le> 2 ^ 53 \<Longrightarrow> to_float k = Inr k"
proof -
  assume a: "\<bar>k\<bar> \<le> 2 ^ 53"
  have "(2::int) ^ 53 < 2 ^ 1024" by simp
  with a have "\<not> 2 ^ 1024 \<le> \<bar>k\<bar>" by linarith
  with a show ?thesis by (simp add: to_float_def round_double_exact_le)
qed

lemma fits_mono: "fits n p \<Longrightarrow> \<bar>c\<bar> \<le> \<bar>p\<bar> \<Longrightarrow> fits n c"
  by (cases n) simp_all

lemma is_multiple_fits: "fits n p \<Longrightarrow> is_multiple n p = Inr (num_value n mod p = 0)"
  by (cases n) (simp_all add: to_float_exact)

lemma true_div_PyFloat: "\<bar>p\<bar> \<le> 2 ^ 53 \<Longrightarrow> true_div (PyFloat x) p = Inr (PyFloat (round_double (x div p)))"
  by (simp add: to_float_exact)

lemma true_div_result:
  assumes "fits n p" "true_div n p = Inr n'"
  shows "n' = PyFloat (round_double (num_value n div p))"
proof (cases n)
  case (PyInt k)
  with assms(2) show ?thesis by (simp split: if_splits)
next
  case (PyFloat x)
  with assms show ?thesis by (simp add: to_float_exact)
qed

lemma true_div_overflow:
  "2 ^ 1024 \<le> n div p \<Longrightarrow> true_div (PyInt n) p = Inl OverflowError"
proof -
  assume "2 ^ 1024 \<le> n div p"
  then have "2 ^ 1024 \<le> round_double (n div p)" by (rule round_double_ge_power)
  then have "2 ^ 1024 \<le> \<bar>round_double (n div p)\<bar>" by linarith
  then show ?thesis by simp
qed

lemma quotient_bounds:
  fixes p v :: int
  assumes "2 \<le> p" "p dvd v" "2 \<le> v"
  shows "1 \<le> v div p" "2 * (v div p) \<le> v" "p * (v div p) = v"
proof -
  from assms have "p \<le> v" by (simp add: zdvd_imp_le)
  with assms(1) have "0 < v div p" using pos_imp_zdiv_pos_iff[of p v] by simp
  then show q: "1 \<le> v div p" by simp
  show pq: "p * (v div p) = v" using assms(2) by simp
  have "2 * (v div p) \<le> p * (v div p)" using assms(1) q by (simp add: mult_right_mono)
  with pq show "2 * (v div p) \<le> v" by simp
qed

lemma true_div_decreases:
  assumes "2 \<le> p" "p dvd num_value n" "2 \<le> num_value n" "fits n p" "true_div n p = Inr n'"
  shows "1 \<le> num_value n'" "num_value n' < num_value n" "float_ok n'"
proof -
  from true_div_result[OF assms(4,5)]
  have n': "n' = PyFloat (round_double (num_value n div p))" .
  note q = quotient_bounds[OF assms(1-3)]
  from round_double_ge_1[OF q(1)] n' show "1 \<le> num_value n'" by simp
  from round_double_less_double[OF q(1)] q(2) n' show "num_value n' < num_value n" by simp
  from n' show "float_ok n'" by (simp only: round_double_float_ok)
qed

lemma true_div_in_range:
  assumes "2 \<le> p" "p dvd num_value n" "2 \<le> num_value n" "num_value n < 2 ^ 1024" "fits n p"
  shows "\<exists>n'. true_div n p = Inr n'"
proof (cases n)
  case (PyInt k)
  note q = quotient_bounds[OF assms(1-3)]
  from round_double_ge_1[OF q(1)] round_double_less_double[OF q(1)] q(2) assms(4)
  have "\<not> 2 ^ 1024 \<le> \<bar>round_double (num_value n div p)\<bar>" by linarith
  with PyInt show ?thesis by simp
next
  case (PyFloat x)
  with assms(5) show ?thesis by (simp add: to_float_exact)
qed

lemma true_div_nonpos:
  assumes "2 \<le> p" "num_value n \<le> 0" "true_div n p = Inr n'"
  shows "num_value n' \<le> 0"
proof (cases n)
  case (PyInt k)
  with assms(3) have n': "n' = PyFloat (round_double (k div p))" by (simp split: if_splits)
  from assms(1,2) PyInt have "k div p \<le> 0" by (intro div_nonpos_pos_le0) simp_all
  then have "round_double (k div p) \<le> 0" by (rule round_double_nonpos)
  with n' show ?thesis by simp
next
  case (PyFloat x)
  with assms(3) obtain p' where p': "to_float p = Inr p'"
    and n': "n' = PyFloat (round_double (x div p'))"
    by (cases "to_float p") auto
  from p' have "p' = round_double p" by (simp add: to_float_def split: if_splits)
  moreover from assms(1) have "1 \<le> round_double p" by (intro round_double_ge_1) simp
  ultimately have "0 < p'" by simp
  with assms(2) PyFloat have "x div p' \<le> 0" by (intro div_nonpos_pos_le0) simp_all
  then have "round_double (x div p') \<le> 0" by (rule round_double_nonpos)
  with n' show ?thesis by simp
qed

lemma true_div_exact_le:
  assumes "0 \<le> num_value n div p" "num_value n div p \<le> 2 ^ 53" "fits n p"
  shows "true_div n p = Inr (PyFloat (num_value n div p))"
proof -
  from assms(1,2) have a: "\<bar>num_value n div p\<bar> \<le> 2 ^ 53" by simp
  then have r: "round_double (num_value n div p) = num_value n div p"
    by (rule round_double_exact_le)
  have "(2::int) ^ 53 < 2 ^ 1024" by simp
  with a have "\<not> 2 ^ 1024 \<le> \<bar>num_value n div p\<bar>" by linarith
  with r assms(3) show ?thesis by (cases n) (simp_all add: to_float_exact)
qed

lemma to_float_error: "to_float k = Inl e \<Longrightarrow> e = OverflowError"
  by (simp add: to_float_def split: if_splits)

lemma true_div_error: "true_div n p = Inl e \<Longrightarrow> e = OverflowError"
  by (cases n) (auto simp: to_float_error split: if_splits sum.splits)

section \<open>The sieve and the for loop\<close>

lemma sieve_next_sound:
  assumes "sieve_next c ps = Some y"
  shows "\<exists>p. c \<le> p \<and> y = (p, p + 1, ps @ [p])"
proof (rule sieve_next.raw_induct
    [where P = "\<lambda>c ps y. \<exists>p. c \<le> p \<and> y = (p, p + 1, ps @ [p])", OF _ assms])
  fix f :: "int \<Rightarrow> int list \<Rightarrow> (int \<times> int \<times> int list) option" and c ps y
  assume ih: "\<And>c ps y. f c ps = Some y \<Longrightarrow> \<exists>p. c \<le> p \<and> y = (p, p + 1, ps @ [p])"
  assume eq: "(if list_all (\<lambda>p. c mod p \<noteq> 0) ps then Some (c, c + 1, ps @ [c])
               else f (c + 1) ps) = Some y"
  show "\<exists>p. c \<le> p \<and> y = (p, p + 1, ps @ [p])"
  proof (cases "list_all (\<lambda>p. c mod p \<noteq> 0) ps")
    case True
    with eq have "y = (c, c + 1, ps @ [c])" by simp
    then show ?thesis by simp
  next
    case False
    with eq have "f (c + 1) ps = Some y" by simp
    from ih[OF this] obtain p where "c + 1 \<le> p" "y = (p, p + 1, ps @ [p])" by auto
    then have "c \<le> p \<and> y = (p, p + 1, ps @ [p])" by simp
    then show ?thesis ..
  qed
qed

lemma sieve_next_finds:
  assumes "list_all (\<lambda>q. p mod q \<noteq> 0) ps" and "c \<le> p"
  shows "\<exists>c'. c \<le> c' \<and> c' \<le> p \<and> sieve_next c ps = Some (c', c' + 1, ps @ [c'])"
  using assms(2)
proof (induction "nat (p - c)" arbitrary: c rule: less_induct)
  case less
  show ?case
  proof (cases "list_all (\<lambda>q. c mod q \<noteq> 0) ps")
    case True
    then have "sieve_next c ps = Some (c, c + 1, ps @ [c])"
      by (subst sieve_next.simps) simp
    with less.prems show ?thesis by auto
  next
    case False
    with assms(1) have "c \<noteq> p" by auto
    with less.prems have lt: "c + 1 \<le> p" by simp
    then have "nat (p - (c + 1)) < nat (p - c)" by simp
    from less.hyps[OF this lt] obtain c' where
      c': "c + 1 \<le> c'" "c' \<le> p" "sieve_next (c + 1) ps = Some (c', c' + 1, ps @ [c'])"
      by auto
    from False have "sieve_next c ps = sieve_next (c + 1) ps"
      by (subst sieve_next.simps) simp
    with c' show ?thesis by auto
  qed
qed

lemma for_loop_sound:
  assumes "for_loop c ps n = Some r"
  shows "\<forall>p. r = Inr p \<longrightarrow> c \<le> p"
proof (rule for_loop.raw_induct
    [where P = "\<lambda>c ps n r. \<forall>p. r = Inr p \<longrightarrow> c \<le> p", OF _ assms])
  fix f :: "int \<Rightarrow> int list \<Rightarrow> number \<Rightarrow> int result" and c ps n r
  assume ih: "\<And>c ps n r. f c ps n = Some r \<Longrightarrow> \<forall>p. r = Inr p \<longrightarrow> c \<le> p"
  assume eq: "Option.bind (sieve_next c ps)
                (\<lambda>(q, c', ps').
                   case is_multiple n q of
                     Inl e \<Rightarrow> Some (Inl e)
                   | Inr b \<Rightarrow> if b then Some (Inr q) else f c' ps' n) = Some r"
  from eq obtain y where y: "sieve_next c ps = Some y"
    and rest: "(case y of (q, c', ps') \<Rightarrow>
                  case is_multiple n q of
                    Inl e \<Rightarrow> Some (Inl e)
                  | Inr b \<Rightarrow> if b then Some (Inr q) else f c' ps' n) = Some r"
    by (auto simp: bind_eq_Some_conv)
  from sieve_next_sound[OF y] obtain q where q: "c \<le> q" "y = (q, q + 1, ps @ [q])" by auto
  show "\<forall>p. r = Inr p \<longrightarrow> c \<le> p"
  proof (cases "is_multiple n q")
    case (Inl e)
    with rest q(2) show ?thesis by auto
  next
    case (Inr b)
    show ?thesis
    proof (cases b)
      case True
      with Inr rest q show ?thesis by auto
    next
      case False
      with Inr rest q(2) have "f (q + 1) (ps @ [q]) n = Some r" by simp
      from ih[OF this] q(1) show ?thesis by auto
    qed
  qed
qed

lemma for_loop_finds:
  assumes p: "2 \<le> p" "p dvd num_value n" "\<forall>k. 2 \<le> k \<and> k < p \<longrightarrow> \<not> k dvd num_value n"
    and fits: "fits n p"
    and c: "2 \<le> c" "c \<le> p" "\<forall>q\<in>set ps. 2 \<le> q \<and> q < c"
  shows "for_loop c ps n = Some (Inr p)"
  using c
proof (induction "nat (p - c)" arbitrary: c ps rule: less_induct)
  case less
  have "list_all (\<lambda>q. p mod q \<noteq> 0) ps"
    unfolding list_all_iff
  proof
    fix q
    assume "q \<in> set ps"
    with less.prems have q: "2 \<le> q" "q < p" by auto
    with p(3) have "\<not> q dvd num_value n" by simp
    with p(2) have "\<not> q dvd p" using dvd_trans by blast
    then show "p mod q \<noteq> 0" by (simp add: dvd_eq_mod_eq_0)
  qed
  from sieve_next_finds[OF this less.prems(2)] obtain c' where
    c': "c \<le> c'" "c' \<le> p" "sieve_next c ps = Some (c', c' + 1, ps @ [c'])"
    by auto
  from c'(1) less.prems(1) have c2: "2 \<le> c'" by simp
  with c'(2) have "\<bar>c'\<bar> \<le> \<bar>p\<bar>" by simp
  with fits have "fits n c'" by (rule fits_mono)
  then have "is_multiple n c' = Inr (num_value n mod c' = 0)" by (rule is_multiple_fits)
  then have step: "for_loop c ps n =
      (if num_value n mod c' = 0 then Some (Inr c') else for_loop (c' + 1) (ps @ [c']) n)"
    by (subst for_loop.simps) (simp add: c'(3))
  show ?case
  proof (cases "c' = p")
    case True
    with step p(2) show ?thesis by (simp add: dvd_eq_mod_eq_0 split: if_splits)
  next
    case False
    with c' have lt: "c' < p" by simp
    with c2 p(3) have "\<not> c' dvd num_value n" by simp
    then have nd: "num_value n mod c' \<noteq> 0" by (simp add: dvd_eq_mod_eq_0)
    have m: "nat (p - (c' + 1)) < nat (p - c)" using lt c'(1) by simp
    have "for_loop (c' + 1) (ps @ [c']) n = Some (Inr p)"
    proof (rule less.hyps[OF m])
      show "2 \<le> c' + 1" using c2 by simp
      show "c' + 1 \<le> p" using lt by simp
      show "\<forall>q\<in>set (ps @ [c']). 2 \<le> q \<and> q < c' + 1"
        using less.prems(3) c'(1) c2 by auto
    qed
    with step nd show ?thesis by simp
  qed
qed

section \<open>The least factor\<close>

lemma least_factor_props:
  assumes "2 \<le> d" "d \<le> n" "\<forall>k. 2 \<le> k \<and> k < d \<longrightarrow> \<not> k dvd n"
  shows "d \<le> least_factor d n \<and> least_factor d n \<le> n \<and> least_factor d n dvd n
         \<and> (\<forall>k. 2 \<le> k \<and> k < least_factor d n \<longrightarrow> \<not> k dvd n)"
  using assms
proof (induction d n rule: least_factor.induct)
  case (1 d n)
  show ?case
  proof (cases "n \<le> d \<or> n mod d = 0")
    case True
    then have lf: "least_factor d n = d" by (subst least_factor.simps) simp
    from True 1(3) have "d dvd n" by (auto simp: dvd_eq_mod_eq_0)
    with lf 1(3,4) show ?thesis by simp
  next
    case False
    then have lf: "least_factor d n = least_factor (d + 1) n" by (subst least_factor.simps) simp
    from False have nd: "\<not> d dvd n" by (simp add: dvd_eq_mod_eq_0)
    have "\<forall>k. 2 \<le> k \<and> k < d + 1 \<longrightarrow> \<not> k dvd n"
    proof (intro allI impI)
      fix k assume "2 \<le> k \<and> k < d + 1"
      then have "k < d \<or> k = d" by auto
      with \<open>2 \<le> k \<and> k < d + 1\<close> 1(4) nd show "\<not> k dvd n" by auto
    qed
    moreover from False have "d + 1 \<le> n" by simp
    moreover from 1(2) have "2 \<le> d + 1" by simp
    ultimately have "d + 1 \<le> least_factor (d + 1) n \<and> least_factor (d + 1) n \<le> n
        \<and> least_factor (d + 1) n dvd n
        \<and> (\<forall>k. 2 \<le> k \<and> k < least_factor (d + 1) n \<longrightarrow> \<not> k dvd n)"
      using 1(1)[OF False] by blast
    with lf show ?thesis by simp
  qed
qed

lemma least_factor_2:
  assumes "2 \<le> n"
  shows "2 \<le> least_factor 2 n" "least_factor 2 n \<le> n" "least_factor 2 n dvd n"
    "\<forall>k. 2 \<le> k \<and> k < least_factor 2 n \<longrightarrow> \<not> k dvd n"
proof -
  have "\<forall>k. 2 \<le> k \<and> k < (2::int) \<longrightarrow> \<not> k dvd n" by auto
  from least_factor_props[OF _ assms this]
  show "2 \<le> least_factor 2 n" "least_factor 2 n \<le> n" "least_factor 2 n dvd n"
    "\<forall>k. 2 \<le> k \<and> k < least_factor 2 n \<longrightarrow> \<not> k dvd n"
    by simp_all
qed

lemma least_factor_fits:
  assumes "2 \<le> num_value n" "float_ok n"
  shows "fits n (least_factor 2 (num_value n))"
proof (cases n)
  case (PyInt k)
  then show ?thesis by simp
next
  case (PyFloat x)
  with assms have x: "2 \<le> x" "\<bar>x\<bar> < 2 ^ 53 \<or> even x" by simp_all
  note lf = least_factor_2[OF x(1)]
  have "least_factor 2 x \<le> 2 ^ 53"
  proof (cases "even x")
    case True
    then have "least_factor 2 x = 2" by (subst least_factor.simps) (simp add: dvd_eq_mod_eq_0)
    then show ?thesis by simp
  next
    case False
    with x(2) have "x < 2 ^ 53" by simp
    with lf(2) show ?thesis by simp
  qed
  with lf(1) PyFloat show ?thesis by simp
qed

lemma for_loop_least_factor:
  assumes "2 \<le> num_value n" "float_ok n"
  shows "for_loop 2 [] n = Some (Inr (least_factor 2 (num_value n)))"
proof (rule for_loop_finds)
  note lf = least_factor_2[OF assms(1)]
  show "2 \<le> least_factor 2 (num_value n)" by (rule lf(1))
  show "least_factor 2 (num_value n) dvd num_value n" by (rule lf(3))
  show "\<forall>k. 2 \<le> k \<and> k < least_factor 2 (num_value n) \<longrightarrow> \<not> k dvd num_value n" by (rule lf(4))
  show "fits n (least_factor 2 (num_value n))" using assms by (rule least_factor_fits)
  show "(2::int) \<le> 2" by simp
  show "2 \<le> least_factor 2 (num_value n)" by (rule lf(1))
  show "\<forall>q\<in>set []. 2 \<le> q \<and> q < (2::int)" by simp
qed

section \<open>The while loop\<close>

lemma while_loop_1: "num_value n = 1 \<Longrightarrow> while_loop n fs = Some (Inr fs)"
  by (subst while_loop.simps) simp

lemma while_loop_step:
  "2 \<le> num_value n \<Longrightarrow> float_ok n \<Longrightarrow>
   while_loop n fs =
     (case true_div n (least_factor 2 (num_value n)) of
        Inl e \<Rightarrow> Some (Inl e)
      | Inr n' \<Rightarrow> while_loop n' (fs @ [least_factor 2 (num_value n)]))"
  by (subst while_loop.simps) (simp add: for_loop_least_factor)

lemma while_loop_total:
  assumes "1 \<le> num_value n" "float_ok n"
  shows "(\<exists>t. while_loop n fs = Some (Inr (fs @ t)))
         \<or> (2 ^ 1024 \<le> num_value n \<and> while_loop n fs = Some (Inl OverflowError))"
  using assms
proof (induction "nat (num_value n)" arbitrary: n fs rule: less_induct)
  case less
  show ?case
  proof (cases "num_value n = 1")
    case True
    then show ?thesis by (simp add: while_loop_1)
  next
    case False
    with less.prems have n: "2 \<le> num_value n" by simp
    let ?p = "least_factor 2 (num_value n)"
    note p = least_factor_2[OF n]
    note fits = least_factor_fits[OF n less.prems(2)]
    note step = while_loop_step[OF n less.prems(2)]
    show ?thesis
    proof (cases "true_div n ?p")
      case (Inl e)
      have "2 ^ 1024 \<le> num_value n"
      proof (rule ccontr)
        assume "\<not> 2 ^ 1024 \<le> num_value n"
        then have "num_value n < 2 ^ 1024" by simp
        from true_div_in_range[OF p(1) p(3) n this fits] Inl show False by simp
      qed
      moreover have "while_loop n fs = Some (Inl OverflowError)"
        using Inl true_div_error[OF Inl] by (simp add: step)
      ultimately show ?thesis by simp
    next
      case (Inr n')
      note n' = true_div_decreases[OF p(1) p(3) n fits Inr]
      from n'(1,2) have "nat (num_value n') < nat (num_value n)" by simp
      from less.hyps[OF this n'(1) n'(3), of "fs @ [?p]"]
      have "(\<exists>t. while_loop n' (fs @ [?p]) = Some (Inr (fs @ ?p # t)))
            \<or> (2 ^ 1024 \<le> num_value n' \<and> while_loop n' (fs @ [?p]) = Some (Inl OverflowError))"
        by simp
      moreover have "while_loop n fs = while_loop n' (fs @ [?p])"
        using Inr by (simp add: step)
      ultimately show ?thesis using n'(2) by auto
    qed
  qed
qed

lemma while_loop_value_pos:
  assumes "while_loop n fs = Some r"
  shows "\<forall>v. r = Inr v \<longrightarrow> 1 \<le> num_value n"
proof (rule while_loop.raw_induct
    [where P = "\<lambda>n fs r. \<forall>v. r = Inr v \<longrightarrow> 1 \<le> num_value n", OF _ assms])
  fix f :: "number \<Rightarrow> int list \<Rightarrow> int list result" and n fs r
  assume ih: "\<And>n fs r. f n fs = Some r \<Longrightarrow> \<forall>v. r = Inr v \<longrightarrow> 1 \<le> num_value n"
  assume eq: "(if num_value n \<noteq> 1 then
                 Option.bind (for_loop 2 [] n)
                   (\<lambda>r. case r of
                          Inl e \<Rightarrow> Some (Inl e)
                        | Inr p \<Rightarrow>
                            (case true_div n p of
                               Inl e \<Rightarrow> Some (Inl e)
                             | Inr n' \<Rightarrow> f n' (fs @ [p])))
               else Some (Inr fs)) = Some r"
  show "\<forall>v. r = Inr v \<longrightarrow> 1 \<le> num_value n"
  proof (cases "num_value n = 1")
    case True
    then show ?thesis by simp
  next
    case False
    with eq obtain y where y: "for_loop 2 [] n = Some y"
      and rest: "(case y of
                    Inl e \<Rightarrow> Some (Inl e)
                  | Inr p \<Rightarrow>
                      (case true_div n p of
                         Inl e \<Rightarrow> Some (Inl e)
                       | Inr n' \<Rightarrow> f n' (fs @ [p]))) = Some r"
      by (auto simp: bind_eq_Some_conv)
    show ?thesis
    proof (cases y)
      case (Inl e)
      with rest show ?thesis by auto
    next
      case (Inr p)
      with for_loop_sound[OF y] have p2: "2 \<le> p" by simp
      show ?thesis
      proof (cases "true_div n p")
        case (Inl e)
        with rest \<open>y = Inr p\<close> show ?thesis by auto
      next
        case td: (Inr n')
        with rest \<open>y = Inr p\<close> have "f n' (fs @ [p]) = Some r" by simp
        from ih[OF this] have ih': "\<forall>v. r = Inr v \<longrightarrow> 1 \<le> num_value n'" .
        show ?thesis
        proof (intro allI impI)
          fix v assume "r = Inr v"
          with ih' have "1 \<le> num_value n'" by simp
          show "1 \<le> num_value n"
          proof (rule ccontr)
            assume "\<not> 1 \<le> num_value n"
            then have "num_value n \<le> 0" by simp
            from true_div_nonpos[OF p2 this td] \<open>1 \<le> num_value n'\<close> show False by simp
          qed
        qed
      qed
    qed
  qed
qed

section \<open>Results of calls\<close>

lemma bind_result_simps [simp]:
  "bind_result None f = None"
  "bind_result (Some (Inl e)) f = Some (Inl e)"
  "bind_result (Some (Inr v)) f = f v"
  by (simp_all add: bind_result_def)

lemma returns_iff: "returns r \<longleftrightarrow> (\<exists>v. r = Some (Inr v))"
  by (cases r rule: returns.cases) simp_all

section \<open>prime_factors, mu and M on positive arguments\<close>

lemma prime_factors_total:
  assumes "1 \<le> n"
  shows "(\<exists>t. prime_factors n = Some (Inr t))
         \<or> (2 ^ 1024 \<le> n \<and> prime_factors n = Some (Inl OverflowError))"
  using while_loop_total[of "PyInt n" "[]"] assms by (auto simp: prime_factors_def)

lemma mu_of_factors:
  "prime_factors n = Some (Inr t) \<Longrightarrow>
   mu n = Some (Inr (if length t \<noteq> card (set t) then 0
                     else if length t mod 2 = 0 then 1 else - 1))"
  by (simp add: mu_def Let_def)

lemma mu_of_error: "prime_factors n = Some (Inl e) \<Longrightarrow> mu n = Some (Inl e)"
  by (simp add: mu_def)

lemma mu_of_None: "prime_factors n = None \<Longrightarrow> mu n = None"
  by (simp add: mu_def)

lemma mu_total:
  assumes "1 \<le> n"
  shows "returns (mu n) \<or> (2 ^ 1024 \<le> n \<and> mu n = Some (Inl OverflowError))"
proof -
  from prime_factors_total[OF assms] show ?thesis
  proof
    assume "\<exists>t. prime_factors n = Some (Inr t)"
    then obtain t where "prime_factors n = Some (Inr t)" ..
    then have "returns (mu n)" by (simp only: mu_of_factors returns.simps)
    then show ?thesis ..
  next
    assume "2 ^ 1024 \<le> n \<and> prime_factors n = Some (Inl OverflowError)"
    then have "2 ^ 1024 \<le> n \<and> mu n = Some (Inl OverflowError)"
      by (simp only: mu_of_error simp_thms)
    then show ?thesis ..
  qed
qed

lemma mu_cases:
  assumes "1 \<le> n"
  obtains v where "mu n = Some (Inr v)" | "2 ^ 1024 \<le> n" "mu n = Some (Inl OverflowError)"
  using mu_total[OF assms] by (auto simp: returns_iff)

lemma mu_range:
  assumes "mu n = Some (Inr v)"
  shows "v \<in> {- 1, 0, 1}"
proof (cases "prime_factors n")
  case None
  with assms show ?thesis by (simp add: mu_of_None)
next
  case (Some r)
  show ?thesis
  proof (cases r)
    case (Inl e)
    with Some assms show ?thesis by (simp add: mu_of_error)
  next
    case (Inr t)
    with Some have "prime_factors n = Some (Inr t)" by simp
    from mu_of_factors[OF this] assms show ?thesis by (simp split: if_splits)
  qed
qed

lemma mu_1: "mu 1 = Some (Inr 1)"
  by (simp add: mu_def prime_factors_def)

lemma M_1: "M 1 = mu 1"
  by (subst M.simps) simp

lemma M_rec: "n \<noteq> 1 \<Longrightarrow> M n = plus_result (mu n) (M (n - 1))"
  by (subst M.simps) (simp add: plus_result_def bind_result_def)

lemma M_sum:
  assumes "1 \<le> n"
  shows "M n = (if \<forall>k\<in>{1..n}. returns (mu k)
                then Some (Inr (\<Sum>k = 1..n. value_of (mu k)))
                else Some (Inl OverflowError))"
  using assms
proof (induction n rule: int_ge_induct)
  case base
  show ?case by (simp add: M_1 mu_1)
next
  case (step i)
  have set: "{1..i + 1} = insert (i + 1) {1..i}" using step.hyps by auto
  have notin: "i + 1 \<notin> {1..i}" by simp
  have rec: "M (i + 1) = plus_result (mu (i + 1)) (M i)"
    using M_rec[of "i + 1"] step.hyps by simp
  from step.hyps have "1 \<le> i + 1" by simp
  then show ?case
  proof (cases rule: mu_cases)
    case (1 v)
    show ?thesis
    proof (cases "\<forall>k\<in>{1..i}. returns (mu k)")
      case True
      with step.IH have "M i = Some (Inr (\<Sum>k = 1..i. value_of (mu k)))" by simp
      with rec 1 True show ?thesis
        by (simp add: plus_result_def set notin del: atLeastAtMost_iff)
    next
      case False
      with step.IH have "M i = Some (Inl OverflowError)" by simp
      with rec 1 False show ?thesis
        by (simp add: plus_result_def set del: atLeastAtMost_iff)
    qed
  next
    case 2
    with rec show ?thesis by (simp add: plus_result_def set del: atLeastAtMost_iff)
  qed
qed

lemma mu_returns_in_range: "1 \<le> n \<Longrightarrow> n < 2 ^ 1024 \<Longrightarrow> returns (mu n)"
  using mu_total[of n] by auto

lemma M_total: "1 \<le> n \<Longrightarrow> returns (M n) \<or> M n = Some (Inl OverflowError)"
  by (simp add: M_sum)

lemma plus_result_commute:
  assumes "returns a \<or> a = Some (Inl OverflowError)"
    and "returns b \<or> b = Some (Inl OverflowError)"
  shows "plus_result a b = plus_result b a"
  using assms by (auto simp: plus_result_def returns_iff)

section \<open>Arguments below 1\<close>

lemma for_loop_0:
  assumes "num_value n = 0"
  shows "for_loop 2 [] n = Some (Inr 2)"
proof -
  have "fits n 2" by (cases n) simp_all
  then have "is_multiple n 2 = Inr (num_value n mod 2 = 0)" by (rule is_multiple_fits)
  with assms have "is_multiple n 2 = Inr True" by simp
  then show ?thesis by (subst for_loop.simps, subst sieve_next.simps) simp
qed

lemma true_div_0:
  assumes "num_value n = 0"
  shows "true_div n 2 = Inr (PyFloat 0)"
proof -
  have "fits n 2" by (cases n) simp_all
  moreover from assms have "num_value n div 2 = 0" by simp
  ultimately show ?thesis using true_div_exact_le[of n 2] by simp
qed

lemma while_loop_0:
  assumes "num_value n = 0"
  shows "while_loop n fs = None"
proof (cases "while_loop n fs")
  case None
  then show ?thesis .
next
  case (Some r)
  have "num_value n \<noteq> 0"
  proof (rule while_loop.raw_induct[where P = "\<lambda>n fs r. num_value n \<noteq> 0", OF _ Some])
    fix f :: "number \<Rightarrow> int list \<Rightarrow> int list result" and n fs r
    assume ih: "\<And>n fs r. f n fs = Some r \<Longrightarrow> num_value n \<noteq> 0"
    assume eq: "(if num_value n \<noteq> 1 then
                   Option.bind (for_loop 2 [] n)
                     (\<lambda>r. case r of
                            Inl e \<Rightarrow> Some (Inl e)
                          | Inr p \<Rightarrow>
                              (case true_div n p of
                                 Inl e \<Rightarrow> Some (Inl e)
                               | Inr n' \<Rightarrow> f n' (fs @ [p])))
                 else Some (Inr fs)) = Some r"
    show "num_value n \<noteq> 0"
    proof
      assume n: "num_value n = 0"
      with eq have "f (PyFloat 0) (fs @ [2]) = Some r"
        by (simp add: for_loop_0[OF n] true_div_0[OF n])
      from ih[OF this] show False by simp
    qed
  qed
  with assms show ?thesis by simp
qed

lemma prime_factors_0: "prime_factors 0 = None"
  by (simp add: prime_factors_def while_loop_0)

lemma mu_0: "mu 0 = None"
  by (simp add: mu_of_None prime_factors_0)

lemma M_0: "M 0 = None"
  by (subst M.simps) (simp add: mu_0)

lemma prime_factors_value_pos: "prime_factors n = Some (Inr v) \<Longrightarrow> 1 \<le> n"
  using while_loop_value_pos[of "PyInt n" "[]" "Inr v"]
  by (auto simp: prime_factors_def split: if_splits)

lemma mu_value_pos:
  assumes "mu n = Some (Inr v)"
  shows "1 \<le> n"
proof (cases "prime_factors n")
  case None
  with assms show ?thesis by (simp add: mu_of_None)
next
  case (Some r)
  show ?thesis
  proof (cases r)
    case (Inl e)
    with Some assms show ?thesis by (simp add: mu_of_error)
  next
    case (Inr t)
    with Some show ?thesis by (simp add: prime_factors_value_pos)
  qed
qed

lemma M_value_pos:
  assumes "M n = Some (Inr w)"
  shows "1 \<le> n"
proof (cases "n = 1")
  case True
  then show ?thesis by simp
next
  case False
  with assms have "plus_result (mu n) (M (n - 1)) = Some (Inr w)" by (simp add: M_rec)
  then obtain x where "mu n = Some (Inr x)"
    by (cases "mu n" rule: returns.cases) (simp_all add: plus_result_def)
  then show ?thesis by (rule mu_value_pos)
qed

section \<open>The forward pass\<close>

lemma accumulate_independently:
  assumes "2 \<le> a" and "M (a - 1) = Some (Inr s)"
  shows "accumulate s [a..N] = independently [a..N]"
  using assms
proof (induction "nat (N + 1 - a)" arbitrary: a s rule: less_induct)
  case less
  show ?case
  proof (cases "a \<le> N")
    case False
    then show ?thesis by simp
  next
    case True
    then have up: "[a..N] = a # [a + 1..N]" by (simp add: upto_rec1)
    from less.prems(1) have rec: "M a = plus_result (mu a) (M (a - 1))" by (simp add: M_rec)
    show ?thesis
    proof (cases "mu a")
      case None
      with rec show ?thesis by (simp add: up plus_result_def)
    next
      case (Some r)
      show ?thesis
      proof (cases r)
        case (Inl e)
        with Some rec show ?thesis by (simp add: up plus_result_def)
      next
        case (Inr m)
        with Some have mu: "mu a = Some (Inr m)" by simp
        with rec less.prems(2) have Ma: "M a = Some (Inr (m + s))"
          by (simp add: plus_result_def)
        have "nat (N + 1 - (a + 1)) < nat (N + 1 - a)" using True by simp
        moreover have "2 \<le> a + 1" using less.prems(1) by simp
        moreover have "M (a + 1 - 1) = Some (Inr (s + m))" using Ma by (simp add: add.commute)
        ultimately have "accumulate (s + m) [a + 1..N] = independently [a + 1..N]"
          by (rule less.hyps)
        with mu Ma show ?thesis by (simp add: up add.commute)
      qed
    qed
  qed
qed

lemma forward_pass_independently:
  assumes "1 \<le> N"
  shows "forward_pass N = independently [1..N]"
proof -
  from assms have up: "[1..N] = 1 # [2..N]" by (simp add: upto_rec1)
  have "M (2 - 1) = Some (Inr 1)" by (simp add: M_1 mu_1)
  then have "accumulate 1 [2..N] = independently [2..N]"
    by (rule accumulate_independently[rotated]) simp
  with assms show ?thesis by (simp add: forward_pass_def up M_1 mu_1)
qed

lemma independently_values:
  "\<forall>k\<in>set ks. returns (M k) \<Longrightarrow>
   independently ks = Some (Inr (map (\<lambda>k. value_of (M k)) ks))"
proof (induction ks)
  case Nil
  show ?case by simp
next
  case (Cons k ks)
  from Cons.prems obtain v where "M k = Some (Inr v)" by (auto simp: returns_iff)
  moreover from Cons have "independently ks = Some (Inr (map (\<lambda>k. value_of (M k)) ks))" by simp
  ultimately show ?case by simp
qed

lemma M_returns_in_range:
  assumes "1 \<le> n" "n < 2 ^ 1024"
  shows "returns (M n)"
proof -
  have "\<forall>k\<in>{1..n}. returns (mu k)"
  proof
    fix k assume "k \<in> {1..n}"
    with assms(2) have "1 \<le> k" "k < 2 ^ 1024" by simp_all
    then show "returns (mu k)" by (rule mu_returns_in_range)
  qed
  with M_sum[OF assms(1)] show ?thesis by simp
qed

section \<open>Arguments up to \<open>2 ^ 54 + 1\<close>: every division is exact\<close>

lemma least_factor_is_prime:
  assumes "2 \<le> n"
  shows "is_prime (least_factor 2 n)"
  unfolding is_prime_def
proof (intro conjI allI impI)
  note p = least_factor_2[OF assms]
  show "2 \<le> least_factor 2 n" by (rule p(1))
  fix d assume d: "2 \<le> d \<and> d < least_factor 2 n"
  with p(4) have "\<not> d dvd n" by simp
  with p(3) show "\<not> d dvd least_factor 2 n" using dvd_trans by blast
qed

lemma is_prime_ge_2: "is_prime p \<Longrightarrow> 2 \<le> p"
  by (simp add: is_prime_def)

lemma while_loop_exact:
  assumes "1 \<le> num_value n" "num_value n \<le> 2 ^ 54 + 1" "float_ok n"
  shows "\<exists>t. while_loop n fs = Some (Inr (fs @ t)) \<and> prod_list t = num_value n \<and> sorted t
           \<and> (\<forall>p\<in>set t. is_prime p)"
  using assms
proof (induction "nat (num_value n)" arbitrary: n fs rule: less_induct)
  case less
  show ?case
  proof (cases "num_value n = 1")
    case True
    then have "while_loop n fs = Some (Inr (fs @ [])) \<and> prod_list [] = num_value n
        \<and> sorted ([]::int list) \<and> (\<forall>p\<in>set []. is_prime p)"
      by (simp add: while_loop_1)
    then show ?thesis ..
  next
    case False
    with less.prems have n: "2 \<le> num_value n" by simp
    define p where "p = least_factor 2 (num_value n)"
    define q where "q = num_value n div p"
    note lf = least_factor_2[OF n, folded p_def]
    note fits = least_factor_fits[OF n less.prems(3), folded p_def]
    note qb = quotient_bounds[OF lf(1) lf(3) n, folded q_def]
    from qb(2) less.prems(2) have "2 * q \<le> 2 ^ 54 + 1" by simp
    then have q53: "q \<le> 2 ^ 53" by simp
    from qb(1) q53 fits have td: "true_div n p = Inr (PyFloat q)"
      unfolding q_def by (intro true_div_exact_le) simp_all
    have step: "while_loop n fs = while_loop (PyFloat q) (fs @ [p])"
      using td by (simp add: while_loop_step[OF n less.prems(3)] p_def)
    have ok: "float_ok (PyFloat q)"
    proof (cases "q = 2 ^ 53")
      case True
      then show ?thesis by simp
    next
      case False
      with q53 qb(1) show ?thesis by simp
    qed
    from qb(1,2) have "nat (num_value (PyFloat q)) < nat (num_value n)" by simp
    moreover from qb(1) have "1 \<le> num_value (PyFloat q)" by simp
    moreover from q53 have "num_value (PyFloat q) \<le> 2 ^ 54 + 1" by simp
    ultimately obtain t where t: "while_loop (PyFloat q) (fs @ [p]) = Some (Inr ((fs @ [p]) @ t))"
      "prod_list t = q" "sorted t" "\<forall>x\<in>set t. is_prime x"
      using less.hyps[of "PyFloat q" "fs @ [p]"] ok by auto
    have "\<forall>x\<in>set t. p \<le> x"
    proof
      fix x assume x: "x \<in> set t"
      then have "x dvd q" using prod_list_dvd[of x t] t(2) by simp
      then have "x dvd num_value n" using qb(3) by (metis dvd_mult)
      moreover from x t(4) have "2 \<le> x" by (simp add: is_prime_ge_2)
      ultimately show "p \<le> x" using lf(4) by (meson not_le)
    qed
    with t(3) have "sorted (p # t)" by simp
    moreover have "prod_list (p # t) = num_value n" using t(2) qb(3) by simp
    moreover have "\<forall>x\<in>set (p # t). is_prime x"
      using t(4) least_factor_is_prime[OF n] by (simp add: p_def)
    moreover have "while_loop n fs = Some (Inr (fs @ p # t))" using step t(1) by simp
    ultimately show ?thesis by blast
  qed
qed

lemma prime_factors_exact:
  assumes "1 \<le> n" "n \<le> 2 ^ 54 + 1"
  shows "\<exists>t. prime_factors n = Some (Inr t) \<and> prod_list t = n \<and> sorted t
           \<and> (\<forall>p\<in>set t. is_prime p)"
  using while_loop_exact[of "PyInt n" "[]"] assms by (auto simp: prime_factors_def)

section \<open>Primes and products\<close>

lemma is_prime_coprime:
  assumes "is_prime p" "\<not> p dvd a"
  shows "coprime p a"
proof (rule coprimeI)
  fix c assume c: "c dvd p" "c dvd a"
  from assms(1) have p: "2 \<le> p" by (rule is_prime_ge_2)
  from c(1) have ac: "\<bar>c\<bar> dvd p" by simp
  with p have "\<bar>c\<bar> \<le> p" by (simp add: zdvd_imp_le)
  moreover have "\<bar>c\<bar> \<noteq> p" using c(2) assms(2) by (metis abs_dvd_iff)
  moreover have "\<bar>c\<bar> \<noteq> 0" using c(1) p by auto
  ultimately have "\<bar>c\<bar> = 1"
    using assms(1) ac unfolding is_prime_def by (smt (verit))
  then show "is_unit c" by simp
qed

lemma is_prime_dvd_mult:
  assumes "is_prime p" "p dvd a * b"
  shows "p dvd a \<or> p dvd b"
proof (cases "p dvd a")
  case True
  then show ?thesis ..
next
  case False
  with assms(1) have "coprime p a" by (rule is_prime_coprime)
  with assms(2) have "p dvd b" by (simp add: coprime_dvd_mult_right_iff)
  then show ?thesis ..
qed

lemma is_prime_dvd_is_prime:
  assumes "is_prime p" "is_prime x" "p dvd x"
  shows "p = x"
proof -
  from assms(1,2) have "2 \<le> p" "2 \<le> x" by (simp_all add: is_prime_ge_2)
  with assms(3) have "p \<le> x" by (simp add: zdvd_imp_le)
  with assms(2,3) \<open>2 \<le> p\<close> show ?thesis unfolding is_prime_def by (smt (verit))
qed

lemma is_prime_dvd_prod_list:
  assumes "is_prime p" "\<forall>x\<in>set t. is_prime x" "p dvd prod_list t"
  shows "p \<in> set t"
  using assms(2,3)
proof (induction t)
  case Nil
  with assms(1) show ?case by (simp add: is_prime_def)
next
  case (Cons x t)
  from Cons.prems(2) have "p dvd x * prod_list t" by simp
  with assms(1) have "p dvd x \<or> p dvd prod_list t" by (rule is_prime_dvd_mult)
  then show ?case
  proof
    assume "p dvd x"
    with assms(1) Cons.prems(1) have "p = x" by (simp add: is_prime_dvd_is_prime)
    then show ?thesis by simp
  next
    assume "p dvd prod_list t"
    with Cons show ?thesis by simp
  qed
qed

lemma square_dvd_prod_list:
  assumes "is_prime p" "\<forall>x\<in>set t. is_prime x" "p * p dvd prod_list t"
  shows "\<not> distinct t"
proof -
  from assms(3) have "p dvd prod_list t" by (metis dvd_mult_left)
  with assms(1,2) have "p \<in> set t" by (rule is_prime_dvd_prod_list)
  then obtain t1 t2 where t: "t = t1 @ p # t2" by (auto simp: in_set_conv_decomp)
  then have "prod_list t = p * prod_list (t1 @ t2)" by simp
  with assms(3) have "p * p dvd p * prod_list (t1 @ t2)" by simp
  moreover from assms(1) have "p \<noteq> 0" by (auto simp: is_prime_def)
  ultimately have "p dvd prod_list (t1 @ t2)" by simp
  moreover from assms(2) t have "\<forall>x\<in>set (t1 @ t2). is_prime x" by simp
  ultimately have "p \<in> set (t1 @ t2)" using assms(1) is_prime_dvd_prod_list by blast
  with t show ?thesis by auto
qed

lemma not_distinct_square_dvd:
  assumes "\<not> distinct t" "\<forall>x\<in>set t. is_prime x"
  shows "\<exists>p. is_prime p \<and> p * p dvd prod_list t"
proof -
  from assms(1) obtain p t1 t2 t3 where t: "t = t1 @ [p] @ t2 @ [p] @ t3"
    using not_distinct_decomp by blast
  then have "prod_list t = p * p * (prod_list t1 * prod_list t2 * prod_list t3)"
    by (simp add: algebra_simps)
  then have "p * p dvd prod_list t" by simp
  moreover from t assms(2) have "is_prime p" by simp
  ultimately show ?thesis by blast
qed

lemma prime_divisors_of_prod_list:
  assumes "\<forall>x\<in>set t. is_prime x"
  shows "{p. is_prime p \<and> p dvd prod_list t} = set t"
proof (intro set_eqI iffI)
  fix p assume "p \<in> {p. is_prime p \<and> p dvd prod_list t}"
  with assms show "p \<in> set t" by (simp add: is_prime_dvd_prod_list)
next
  fix p assume "p \<in> set t"
  with assms show "p \<in> {p. is_prime p \<and> p dvd prod_list t}" by (simp add: prod_list_dvd)
qed

lemma mu_exact:
  assumes "1 \<le> n" "n \<le> 2 ^ 54 + 1"
  shows "mu n = Some (Inr (if \<exists>p. is_prime p \<and> p * p dvd n then 0
                            else (- 1) ^ card {p. is_prime p \<and> p dvd n}))"
proof -
  from prime_factors_exact[OF assms] obtain t where t: "prime_factors n = Some (Inr t)"
    "prod_list t = n" "\<forall>p\<in>set t. is_prime p" by blast
  have sq: "(\<exists>p. is_prime p \<and> p * p dvd n) \<longleftrightarrow> \<not> distinct t"
    using square_dvd_prod_list[OF _ t(3)] not_distinct_square_dvd[OF _ t(3)] t(2) by blast
  have len: "length t \<noteq> card (set t) \<longleftrightarrow> \<not> distinct t"
    using card_distinct distinct_card by metis
  have set: "{p. is_prime p \<and> p dvd n} = set t"
    using prime_divisors_of_prod_list[OF t(3)] t(2) by simp
  show ?thesis
  proof (cases "distinct t")
    case False
    with sq len show ?thesis by (simp add: mu_of_factors[OF t(1)])
  next
    case True
    then have c: "card (set t) = length t" by (rule distinct_card)
    have "(- 1 :: int) ^ length t = (if length t mod 2 = 0 then 1 else - 1)"
      by (simp add: minus_one_power_iff even_iff_mod_2_eq_zero)
    with True sq len c set show ?thesis by (simp add: mu_of_factors[OF t(1)])
  qed
qed

lemma finite_prime_divisors:
  assumes "1 \<le> n"
  shows "finite {p. is_prime p \<and> p dvd n}"
proof (rule finite_subset)
  show "{p. is_prime p \<and> p dvd n} \<subseteq> {2..n}"
  proof
    fix p assume "p \<in> {p. is_prime p \<and> p dvd n}"
    then have "2 \<le> p" "p dvd n" by (simp_all add: is_prime_ge_2)
    with assms have "p \<le> n" by (simp add: zdvd_imp_le)
    with \<open>2 \<le> p\<close> show "p \<in> {2..n}" by simp
  qed
  show "finite {2..n}" by simp
qed

lemma square_dvd_coprime_mult:
  assumes "is_prime p" "coprime a b" "p * p dvd a * b"
  shows "p * p dvd a \<or> p * p dvd b"
proof -
  from assms(3) have "p dvd a * b" by (metis dvd_mult_left)
  with assms(1) have d: "p dvd a \<or> p dvd b" by (rule is_prime_dvd_mult)
  have np: "\<not> is_unit p" using assms(1) by (auto simp: is_prime_def)
  from d show ?thesis
  proof
    assume pa: "p dvd a"
    with assms(2) np have "\<not> p dvd b" using coprime_common_divisor by blast
    with assms(1) have "coprime p b" by (rule is_prime_coprime)
    then have "coprime (p * p) b" by simp
    with assms(3) have "p * p dvd a" by (simp add: coprime_dvd_mult_left_iff)
    then show ?thesis ..
  next
    assume pb: "p dvd b"
    with assms(2) np have "\<not> p dvd a" using coprime_common_divisor by blast
    with assms(1) have "coprime p a" by (rule is_prime_coprime)
    then have "coprime (p * p) a" by simp
    with assms(3) have "p * p dvd b" by (simp add: coprime_dvd_mult_right_iff)
    then show ?thesis ..
  qed
qed

lemma mu_multiplicative_exact:
  assumes "1 \<le> a" "1 \<le> b" "coprime a b" "a * b \<le> 2 ^ 54 + 1"
  shows "\<exists>x y. mu a = Some (Inr x) \<and> mu b = Some (Inr y) \<and> mu (a * b) = Some (Inr (x * y))"
proof -
  let ?S = "\<lambda>n. {p. is_prime p \<and> p dvd n}"
  let ?Q = "\<lambda>n. \<exists>p. is_prime p \<and> p * p dvd n"
  from assms(1,2) have ab: "1 \<le> a * b" by (metis mult_mono' mult_1 zero_le_one)
  from assms(1,2) have "a * 1 \<le> a * b" by (intro mult_left_mono) simp_all
  with assms(4) have a: "a \<le> 2 ^ 54 + 1" by simp
  from assms(1,2) have "1 * b \<le> a * b" by (intro mult_right_mono) simp_all
  with assms(4) have b: "b \<le> 2 ^ 54 + 1" by simp
  have Q: "?Q (a * b) \<longleftrightarrow> ?Q a \<or> ?Q b"
  proof
    assume "?Q (a * b)"
    then obtain p where "is_prime p" "p * p dvd a * b" by blast
    with assms(3) have "p * p dvd a \<or> p * p dvd b" by (simp add: square_dvd_coprime_mult)
    with \<open>is_prime p\<close> show "?Q a \<or> ?Q b" by blast
  next
    assume "?Q a \<or> ?Q b"
    then show "?Q (a * b)" by (metis dvd_mult dvd_mult2)
  qed
  have S: "?S (a * b) = ?S a \<union> ?S b"
    using is_prime_dvd_mult by (auto intro: dvd_mult dvd_mult2)
  have disj: "?S a \<inter> ?S b = {}"
  proof (rule ccontr)
    assume "?S a \<inter> ?S b \<noteq> {}"
    then obtain p where "is_prime p" "p dvd a" "p dvd b" by blast
    with assms(3) have "is_unit p" using coprime_common_divisor by blast
    with \<open>is_prime p\<close> show False by (auto simp: is_prime_def)
  qed
  have card: "card (?S (a * b)) = card (?S a) + card (?S b)"
    unfolding S
    by (rule card_Un_disjoint[OF finite_prime_divisors[OF assms(1)]
          finite_prime_divisors[OF assms(2)] disj])
  let ?x = "if ?Q a then 0 else (- 1 :: int) ^ card (?S a)"
  let ?y = "if ?Q b then 0 else (- 1 :: int) ^ card (?S b)"
  have "mu a = Some (Inr ?x)" using assms(1) a by (rule mu_exact)
  moreover have "mu b = Some (Inr ?y)" using assms(2) b by (rule mu_exact)
  moreover have "mu (a * b) = Some (Inr (?x * ?y))"
    using mu_exact[OF ab assms(4)] Q card by (simp add: power_add)
  ultimately show ?thesis by blast
qed

section \<open>Evaluation on concrete arguments\<close>

lemma while_loop_unfold:
  "2 \<le> num_value n \<Longrightarrow> float_ok n \<Longrightarrow>
   while_loop n fs = divide_out n fs (least_factor 2 (num_value n))"
  by (simp add: while_loop_step divide_out_def)

lemmas div_eval = to_float_def round_double_def round_half_even_def bit_length.simps

lemmas pf_eval =
  prime_factors_def while_loop_unfold while_loop_1 divide_out_def least_factor.simps div_eval

lemma while_loop_step_to:
  "2 \<le> num_value n \<Longrightarrow> float_ok n \<Longrightarrow> least_factor 2 (num_value n) = p \<Longrightarrow>
   true_div n p = Inr n' \<Longrightarrow> while_loop n fs = while_loop n' (fs @ [p])"
  by (simp add: while_loop_step)

lemma prime_factors_1: "prime_factors 1 = Some (Inr [])"
  by (simp add: pf_eval)

lemma prime_factors_12: "prime_factors 12 = Some (Inr [2, 2, 3])"
  by (simp add: pf_eval)

lemma prime_factors_17: "prime_factors 17 = Some (Inr [17])"
  by (simp add: pf_eval)

lemma mu_values:
  "mu 1 = Some (Inr 1)" "mu 2 = Some (Inr (- 1))" "mu 3 = Some (Inr (- 1))"
  "mu 4 = Some (Inr 0)" "mu 5 = Some (Inr (- 1))" "mu 6 = Some (Inr 1)"
  "mu 7 = Some (Inr (- 1))" "mu 8 = Some (Inr 0)" "mu 9 = Some (Inr 0)"
  "mu 10 = Some (Inr 1)" "mu 30 = Some (Inr (- 1))"
  by (simp_all add: mu_def pf_eval)

lemma M_values:
  "M 1 = Some (Inr 1)" "M 2 = Some (Inr 0)" "M 3 = Some (Inr (- 1))"
  "M 4 = Some (Inr (- 1))" "M 10 = Some (Inr (- 1))"
  by (simp_all add: M_rec M_1 plus_result_def mu_values)

subsection \<open>A quotient that is not a double\<close>

lemma while_loop_power_of_2:
  "k \<le> 53 \<Longrightarrow> while_loop (PyFloat (2 ^ k)) fs = Some (Inr (fs @ replicate k 2))"
proof (induction k arbitrary: fs)
  case 0
  show ?case by (simp add: while_loop_1)
next
  case (Suc k)
  have n: "2 \<le> num_value (PyFloat (2 ^ Suc k))" by simp
  have ok: "float_ok (PyFloat (2 ^ Suc k))" by simp
  have lf: "least_factor 2 (2 ^ Suc k) = 2" by (subst least_factor.simps) simp
  have "(2::int) ^ k \<le> 2 ^ 53" using Suc.prems by (intro power_increasing) simp_all
  then have "true_div (PyFloat (2 ^ Suc k)) 2 = Inr (PyFloat (num_value (PyFloat (2 ^ Suc k)) div 2))"
    by (intro true_div_exact_le) simp_all
  then have td: "true_div (PyFloat (2 ^ Suc k)) 2 = Inr (PyFloat (2 ^ k))" by simp
  from Suc.prems have "k \<le> 53" by simp
  then have "while_loop (PyFloat (2 ^ k)) (fs @ [2]) = Some (Inr ((fs @ [2]) @ replicate k 2))"
    by (rule Suc.IH)
  moreover have "while_loop (PyFloat (2 ^ Suc k)) fs = while_loop (PyFloat (2 ^ k)) (fs @ [2])"
    using n ok _ td by (rule while_loop_step_to) (use lf in simp)
  ultimately show ?case by (simp add: replicate_app_Cons_same)
qed

lemma prime_factors_2_54: "prime_factors (2 ^ 54 + 2) = Some (Inr (replicate 54 2))"
proof -
  have "while_loop (PyInt (2 ^ 54 + 2)) [] = while_loop (PyFloat (2 ^ 53)) ([] @ [2])"
    by (rule while_loop_step_to) (simp_all add: least_factor.simps div_eval)
  also have "\<dots> = Some (Inr (([] @ [2]) @ replicate 53 2))"
    by (rule while_loop_power_of_2) simp
  finally have "while_loop (PyInt (2 ^ 54 + 2)) [] = Some (Inr (replicate 54 2))"
    by (simp add: eval_nat_numeral)
  then show ?thesis by (simp add: prime_factors_def)
qed

lemma while_loop_157991512097943741:
  "while_loop (PyInt 157991512097943741) [] =
     while_loop (PyFloat 6800598833417) [3, 2, 2, 2, 2, 2, 2, 11, 11]"
proof -
  have "while_loop (PyInt 157991512097943741) []
        = while_loop (PyFloat 52663837365981248) ([] @ [3])"
    by (rule while_loop_step_to) (simp_all add: least_factor.simps div_eval)
  also have "\<dots> = while_loop (PyFloat 26331918682990624) (([] @ [3]) @ [2])"
    by (rule while_loop_step_to) (simp_all add: least_factor.simps div_eval)
  also have "\<dots> = while_loop (PyFloat 13165959341495312) ((([] @ [3]) @ [2]) @ [2])"
    by (rule while_loop_step_to) (simp_all add: least_factor.simps div_eval)
  also have "\<dots> = while_loop (PyFloat 6582979670747656) (((([] @ [3]) @ [2]) @ [2]) @ [2])"
    by (rule while_loop_step_to) (simp_all add: least_factor.simps div_eval)
  also have "\<dots> = while_loop (PyFloat 3291489835373828) ((((([] @ [3]) @ [2]) @ [2]) @ [2]) @ [2])"
    by (rule while_loop_step_to) (simp_all add: least_factor.simps div_eval)
  also have "\<dots> = while_loop (PyFloat 1645744917686914) (((((([] @ [3]) @ [2]) @ [2]) @ [2]) @ [2]) @ [2])"
    by (rule while_loop_step_to) (simp_all add: least_factor.simps div_eval)
  also have "\<dots> = while_loop (PyFloat 822872458843457) ((((((([] @ [3]) @ [2]) @ [2]) @ [2]) @ [2]) @ [2]) @ [2])"
    by (rule while_loop_step_to) (simp_all add: least_factor.simps div_eval)
  also have "\<dots> = while_loop (PyFloat 74806587167587) (((((((([] @ [3]) @ [2]) @ [2]) @ [2]) @ [2]) @ [2]) @ [2]) @ [11])"
    by (rule while_loop_step_to) (simp_all add: least_factor.simps div_eval)
  also have "\<dots> = while_loop (PyFloat 6800598833417) ((((((((([] @ [3]) @ [2]) @ [2]) @ [2]) @ [2]) @ [2]) @ [2]) @ [11]) @ [11])"
    by (rule while_loop_step_to) (simp_all add: least_factor.simps div_eval)
  finally show ?thesis by simp
qed

lemma while_loop_6800598833417:
  "while_loop (PyFloat 6800598833417) fs = while_loop (PyFloat 93158888129) (fs @ [73])"
  by (rule while_loop_step_to) (simp_all add: least_factor.simps div_eval)

lemma while_loop_93158888129:
  "while_loop (PyFloat 93158888129) fs = while_loop (PyFloat 922365229) (fs @ [101])"
  by (rule while_loop_step_to) (simp_all add: least_factor.simps div_eval)

lemma while_loop_922365229:
  "while_loop (PyFloat 922365229) fs = while_loop (PyFloat 9132329) (fs @ [101])"
  by (rule while_loop_step_to) (simp_all add: least_factor.simps div_eval)

lemma while_loop_9132329:
  "while_loop (PyFloat 9132329) fs = while_loop (PyFloat 60479) (fs @ [151])"
  by (rule while_loop_step_to) (simp_all add: least_factor.simps div_eval)

lemma while_loop_60479:
  "while_loop (PyFloat 60479) fs = while_loop (PyFloat 307) (fs @ [197])"
  by (rule while_loop_step_to) (simp_all add: least_factor.simps div_eval)

lemma while_loop_307:
  "while_loop (PyFloat 307) fs = while_loop (PyFloat 1) (fs @ [307])"
  by (rule while_loop_step_to) (simp_all add: least_factor.simps div_eval)

lemma prime_factors_157991512097943741:
  "prime_factors 157991512097943741 =
     Some (Inr [3, 2, 2, 2, 2, 2, 2, 11, 11, 73, 101, 101, 151, 197, 307])"
  by (simp add: prime_factors_def while_loop_157991512097943741
      while_loop_6800598833417 while_loop_93158888129 while_loop_922365229
      while_loop_9132329 while_loop_60479 while_loop_307
      while_loop_1)

lemma mu_157991512097943741: "mu 157991512097943741 = Some (Inr 0)"
  using mu_of_factors[OF prime_factors_157991512097943741] by (simp add: card_set)

lemma prime_factors_5772333: "prime_factors 5772333 = Some (Inr [3, 7, 17, 19, 23, 37])"
  by (simp add: pf_eval)

lemma prime_factors_27370477777:
  "prime_factors 27370477777 = Some (Inr [43, 47, 53, 59, 61, 71])"
  by (simp add: pf_eval)

lemma mu_5772333: "mu 5772333 = Some (Inr 1)"
  using mu_of_factors[OF prime_factors_5772333] by simp

lemma mu_27370477777: "mu 27370477777 = Some (Inr 1)"
  using mu_of_factors[OF prime_factors_27370477777] by simp

lemma twelve_primes:
  "\<forall>p\<in>set [3, 7, 17, 19, 23, 37, 43, 47, 53, 59, 61, 71]. is_prime p"
proof -
  from prime_factors_exact[of 5772333] obtain t
    where "prime_factors 5772333 = Some (Inr t)" "\<forall>p\<in>set t. is_prime p" by auto
  with prime_factors_5772333 have a: "\<forall>p\<in>set [3, 7, 17, 19, 23, 37]. is_prime p" by simp
  from prime_factors_exact[of 27370477777] obtain u
    where "prime_factors 27370477777 = Some (Inr u)" "\<forall>p\<in>set u. is_prime p" by auto
  with prime_factors_27370477777 have "\<forall>p\<in>set [43, 47, 53, 59, 61, 71]. is_prime p" by simp
  with a show ?thesis by simp
qed

lemma squarefree_157991512097943741:
  "\<not> (\<exists>p. is_prime p \<and> p * p dvd 157991512097943741)"
  "card {p. is_prime p \<and> p dvd 157991512097943741} = 12"
proof -
  let ?t = "[3, 7, 17, 19, 23, 37, 43, 47, 53, 59, 61, 71] :: int list"
  have prod: "prod_list ?t = 157991512097943741" by simp
  have dist: "distinct ?t" by simp
  show "\<not> (\<exists>p. is_prime p \<and> p * p dvd 157991512097943741)"
    using square_dvd_prod_list[OF _ twelve_primes] dist unfolding prod by blast
  have "{p. is_prime p \<and> p dvd prod_list ?t} = set ?t"
    using twelve_primes by (rule prime_divisors_of_prod_list)
  then have "card {p. is_prime p \<and> p dvd prod_list ?t} = card (set ?t)" by simp
  also have "\<dots> = length ?t" using dist by (rule distinct_card)
  finally show "card {p. is_prime p \<and> p dvd 157991512097943741} = 12"
    unfolding prod by simp
qed

subsection \<open>A quotient beyond the range of a double\<close>

lemma while_loop_overflow: "while_loop (PyInt (2 ^ 1025)) [] = Some (Inl OverflowError)"
proof -
  have n: "2 \<le> num_value (PyInt (2 ^ 1025))" by simp
  have ok: "float_ok (PyInt (2 ^ 1025))" by simp
  have lf: "least_factor 2 (2 ^ 1025) = 2" by (subst least_factor.simps) simp
  have "(2::int) ^ 1024 \<le> 2 ^ 1025 div 2" by simp
  then have td: "true_div (PyInt (2 ^ 1025)) 2 = Inl OverflowError" by (rule true_div_overflow)
  show ?thesis unfolding while_loop_step[OF n ok] num_value.simps lf td by simp
qed

lemma prime_factors_overflow: "prime_factors (2 ^ 1025) = Some (Inl OverflowError)"
  using while_loop_overflow by (simp add: prime_factors_def)

lemma mu_overflow: "mu (2 ^ 1025) = Some (Inl OverflowError)"
  using prime_factors_overflow by (rule mu_of_error)

section \<open>The recursion limit\<close>

text \<open>
  With \<open>d\<close> frames a call gives what it gives on an unbounded stack, or it raises
  \<^verbatim>\<open>RecursionError\<close> (\<open>prime_factors_depth_cases\<close>, \<open>mu_depth_cases\<close>,
  \<open>M_depth_cases\<close>). The sieve takes fewer than \<open>n\<close> frames to reach \<open>n\<close>, so \<open>n + 4\<close>
  frames are enough for \<open>M(n)\<close> (\<open>M_depth_enough\<close>); \<open>M\<close> takes one frame for each
  number from \<open>n\<close> down to 1, so fewer than \<open>n + 3\<close> frames are too few
  (\<open>M_depth_too_deep_from_3\<close>). From 3 up to \<open>2 ^ 54 + 1\<close>, \<open>M(n)\<close> returns with
  \<open>n + 3\<close> frames or more and with no fewer (\<open>M_depth_threshold\<close>).
\<close>

subsection \<open>The sieve and the for loop\<close>

lemma sieve_bound_mono: "c \<le> c' \<Longrightarrow> sieve_bound c \<le> sieve_bound c'"
proof -
  assume le: "c \<le> c'"
  have a: "c div 6 \<le> c' div 6" using le by (rule zdiv_mono1) simp
  have b: "(c - 2) div 6 \<le> (c' - 2) div 6" using le by (intro zdiv_mono1) simp_all
  show ?thesis
  proof (cases "c' \<le> 4")
    case True
    with le show ?thesis by (simp add: sieve_bound_def)
  next
    case False
    show ?thesis
    proof (cases "c \<le> 4")
      case True
      have "0 \<le> c' div 6" "0 \<le> (c' - 2) div 6" using False by simp_all
      with True False show ?thesis by (simp add: sieve_bound_def)
    next
      case False
      with a b le show ?thesis by (simp add: sieve_bound_def)
    qed
  qed
qed

lemma sieve_bound_step:
  assumes "4 \<le> c" "c \<le> c'" "c' mod 2 \<noteq> 0" "c' mod 3 \<noteq> 0"
  shows "sieve_bound c + 1 \<le> sieve_bound (c' + 1)"
proof -
  from assms have c5: "5 \<le> c'" by (cases "c' = 4") auto
  have "sieve_bound c \<le> sieve_bound c'" using assms(2) by (rule sieve_bound_mono)
  moreover have "sieve_bound c' + 1 \<le> sieve_bound (c' + 1)"
  proof -
    define m where "m = c' div 6"
    define r where "r = c' mod 6"
    have c: "c' = 6 * m + r" and r: "0 \<le> r" "r < 6" by (simp_all add: m_def r_def)
    from assms(3,4) have "r = 1 \<or> r = 5"
      unfolding r_def by presburger
    then show ?thesis
    proof
      assume r1: "r = 1"
      with c have "c' div 6 = m" "(c' - 2) div 6 = m - 1" "(c' + 1) div 6 = m" "(c' + 1 - 2) div 6 = m"
        by simp_all
      with c5 show ?thesis by (simp add: sieve_bound_def)
    next
      assume r5: "r = 5"
      with c have "c' div 6 = m" "(c' - 2) div 6 = m" "(c' + 1) div 6 = m + 1" "(c' + 1 - 2) div 6 = m"
        by simp_all
      with c5 show ?thesis by (simp add: sieve_bound_def)
    qed
  qed
  ultimately show ?thesis by simp
qed

lemma sieve_bound_third: "2 \<le> c \<Longrightarrow> 3 * sieve_bound c \<le> c + 6"
proof -
  assume "2 \<le> c"
  have "6 * (c div 6) \<le> c" "6 * ((c - 2) div 6) \<le> c - 2"
    by presburger+
  with \<open>2 \<le> c\<close> show ?thesis by (auto simp: sieve_bound_def)
qed

lemma sieve_bound_half: "2 \<le> c \<Longrightarrow> 2 * sieve_bound c + 1 \<le> c + 1"
proof -
  assume c: "2 \<le> c"
  show ?thesis
  proof (cases "c \<le> 11")
    case True
    with c have "c = 2 \<or> c = 3 \<or> c = 4 \<or> c = 5 \<or> c = 6 \<or> c = 7 \<or> c = 8 \<or> c = 9
        \<or> c = 10 \<or> c = 11" by presburger
    then show ?thesis by (auto simp: sieve_bound_def)
  next
    case False
    with sieve_bound_third[OF c] show ?thesis by simp
  qed
qed

lemma sieve_next_first:
  "list_all (\<lambda>q. c mod q \<noteq> 0) ps \<Longrightarrow> sieve_next c ps = Some (c, c + 1, ps @ [c])"
  by (subst sieve_next.simps) simp

lemma sieve_next_passes:
  assumes "sieve_next c ps = Some y"
  shows "list_all (\<lambda>q. fst y mod q \<noteq> 0) ps"
proof (rule sieve_next.raw_induct
    [where P = "\<lambda>c ps y. list_all (\<lambda>q. fst y mod q \<noteq> 0) ps", OF _ assms])
  fix f :: "int \<Rightarrow> int list \<Rightarrow> (int \<times> int \<times> int list) option" and c ps y
  assume ih: "\<And>c ps y. f c ps = Some y \<Longrightarrow> list_all (\<lambda>q. fst y mod q \<noteq> 0) ps"
  assume eq: "(if list_all (\<lambda>p. c mod p \<noteq> 0) ps then Some (c, c + 1, ps @ [c])
               else f (c + 1) ps) = Some y"
  show "list_all (\<lambda>q. fst y mod q \<noteq> 0) ps"
  proof (cases "list_all (\<lambda>p. c mod p \<noteq> 0) ps")
    case True
    with eq have "y = (c, c + 1, ps @ [c])" by simp
    with True show ?thesis by simp
  next
    case False
    with eq have "f (c + 1) ps = Some y" by simp
    then show ?thesis by (rule ih)
  qed
qed

lemma for_loop_depth_too_deep:
  "d < 2 * length ps + 1 \<Longrightarrow> for_loop_depth d c ps n = Some (Inl RecursionError)"
  by (subst for_loop_depth.simps) (simp add: sieve_next_depth_def)

lemma for_loop_depth_finds:
  assumes p: "2 \<le> p" "p dvd num_value n" "\<forall>k. 2 \<le> k \<and> k < p \<longrightarrow> \<not> k dvd num_value n"
    and fits: "fits n p"
    and d: "2 * sieve_bound p + 1 \<le> int d"
    and c: "2 \<le> c" "c \<le> p" "\<forall>q\<in>set ps. 2 \<le> q \<and> q < c"
      "int (length ps) \<le> sieve_bound c" "2 < c \<longrightarrow> 2 \<in> set ps" "3 < c \<longrightarrow> 3 \<in> set ps"
  shows "for_loop_depth d c ps n = Some (Inr p)"
  using c
proof (induction "nat (p - c)" arbitrary: c ps rule: less_induct)
  case less
  have "list_all (\<lambda>q. p mod q \<noteq> 0) ps"
    unfolding list_all_iff
  proof
    fix q
    assume "q \<in> set ps"
    with less.prems have q: "2 \<le> q" "q < p" by auto
    with p(3) have "\<not> q dvd num_value n" by simp
    with p(2) have "\<not> q dvd p" using dvd_trans by blast
    then show "p mod q \<noteq> 0" by (simp add: dvd_eq_mod_eq_0)
  qed
  from sieve_next_finds[OF this less.prems(2)] obtain c' where
    c': "c \<le> c'" "c' \<le> p" "sieve_next c ps = Some (c', c' + 1, ps @ [c'])"
    by auto
  from c'(1) less.prems(1) have c2: "2 \<le> c'" by simp
  with c'(2) have "\<bar>c'\<bar> \<le> \<bar>p\<bar>" by simp
  with fits have "fits n c'" by (rule fits_mono)
  then have im: "is_multiple n c' = Inr (num_value n mod c' = 0)" by (rule is_multiple_fits)
  from sieve_next_passes[OF c'(3)] have pass: "\<forall>q\<in>set ps. c' mod q \<noteq> 0"
    by (simp add: list_all_iff)
  have small: "c' = c" if "c \<le> 3"
  proof -
    have "list_all (\<lambda>q. c mod q \<noteq> 0) ps"
      unfolding list_all_iff
    proof
      fix q assume "q \<in> set ps"
      with less.prems(3) that have "q = 2" "c = 3" by auto
      then show "c mod q \<noteq> 0" by simp
    qed
    from sieve_next_first[OF this] c'(3) show ?thesis by simp
  qed
  have "sieve_bound c \<le> sieve_bound p" using less.prems(2) by (rule sieve_bound_mono)
  with less.prems(4) d have "2 * int (length ps) + 1 \<le> int d" by linarith
  then have depth: "\<not> d < 2 * length ps + 1" by linarith
  have step: "for_loop_depth d c ps n =
      (if num_value n mod c' = 0 then Some (Inr c') else for_loop_depth d (c' + 1) (ps @ [c']) n)"
    using depth by (subst for_loop_depth.simps) (simp add: sieve_next_depth_def c'(3) im)
  show ?case
  proof (cases "c' = p")
    case True
    with step p(2) show ?thesis by (simp add: dvd_eq_mod_eq_0 split: if_splits)
  next
    case False
    with c' have lt: "c' < p" by simp
    with c2 p(3) have "\<not> c' dvd num_value n" by simp
    then have nd: "num_value n mod c' \<noteq> 0" by (simp add: dvd_eq_mod_eq_0)
    have m: "nat (p - (c' + 1)) < nat (p - c)" using lt c'(1) by simp
    have len: "int (length (ps @ [c'])) \<le> sieve_bound (c' + 1)"
    proof (cases "c \<le> 3")
      case True
      with small have "c' = c" by simp
      with True less.prems(1,4) show ?thesis by (auto simp: sieve_bound_def)
    next
      case False
      with less.prems(5,6) have "2 \<in> set ps" "3 \<in> set ps" by simp_all
      with pass have "c' mod 2 \<noteq> 0" "c' mod 3 \<noteq> 0" by auto
      with False c'(1) have "sieve_bound c + 1 \<le> sieve_bound (c' + 1)"
        by (intro sieve_bound_step) simp_all
      with less.prems(4) show ?thesis by simp
    qed
    have two: "2 < c' + 1 \<longrightarrow> 2 \<in> set (ps @ [c'])"
    proof (cases "c \<le> 2")
      case True
      with small less.prems(1) have "c' = 2" by simp
      then show ?thesis by simp
    next
      case False
      with less.prems(5) show ?thesis by simp
    qed
    have three: "3 < c' + 1 \<longrightarrow> 3 \<in> set (ps @ [c'])"
    proof (cases "c \<le> 3")
      case True
      with small have "c' \<le> 3" by simp
      then show ?thesis by auto
    next
      case False
      with less.prems(6) show ?thesis by simp
    qed
    have "for_loop_depth d (c' + 1) (ps @ [c']) n = Some (Inr p)"
    proof (rule less.hyps[OF m])
      show "2 \<le> c' + 1" using c2 by simp
      show "c' + 1 \<le> p" using lt by simp
      show "\<forall>q\<in>set (ps @ [c']). 2 \<le> q \<and> q < c' + 1"
        using less.prems(3) c'(1) c2 by auto
      show "int (length (ps @ [c'])) \<le> sieve_bound (c' + 1)" by (rule len)
      show "2 < c' + 1 \<longrightarrow> 2 \<in> set (ps @ [c'])" by (rule two)
      show "3 < c' + 1 \<longrightarrow> 3 \<in> set (ps @ [c'])" by (rule three)
    qed
    with step nd show ?thesis by simp
  qed
qed

lemma for_loop_depth_cases:
  assumes "for_loop c ps n = Some r"
  shows "for_loop_depth d c ps n = Some r \<or> for_loop_depth d c ps n = Some (Inl RecursionError)"
proof (rule for_loop.raw_induct
    [where P = "\<lambda>c ps n r. for_loop_depth d c ps n = Some r
                  \<or> for_loop_depth d c ps n = Some (Inl RecursionError)", OF _ assms])
  fix f :: "int \<Rightarrow> int list \<Rightarrow> number \<Rightarrow> int result" and c ps n r
  assume ih: "\<And>c ps n r. f c ps n = Some r \<Longrightarrow>
      for_loop_depth d c ps n = Some r \<or> for_loop_depth d c ps n = Some (Inl RecursionError)"
  assume eq: "Option.bind (sieve_next c ps)
                (\<lambda>(q, c', ps').
                   case is_multiple n q of
                     Inl e \<Rightarrow> Some (Inl e)
                   | Inr b \<Rightarrow> if b then Some (Inr q) else f c' ps' n) = Some r"
  from eq obtain y where y: "sieve_next c ps = Some y"
    and rest: "(case y of (q, c', ps') \<Rightarrow>
                  case is_multiple n q of
                    Inl e \<Rightarrow> Some (Inl e)
                  | Inr b \<Rightarrow> if b then Some (Inr q) else f c' ps' n) = Some r"
    by (auto simp: bind_eq_Some_conv)
  obtain q c' ps' where yq: "y = (q, c', ps')" by (cases y) auto
  show "for_loop_depth d c ps n = Some r \<or> for_loop_depth d c ps n = Some (Inl RecursionError)"
  proof (cases "d < 2 * length ps + 1")
    case True
    then show ?thesis by (simp add: for_loop_depth_too_deep)
  next
    case False
    then have unf: "for_loop_depth d c ps n =
        (case is_multiple n q of
           Inl e \<Rightarrow> Some (Inl e)
         | Inr b \<Rightarrow> if b then Some (Inr q) else for_loop_depth d c' ps' n)"
      by (subst for_loop_depth.simps) (simp add: sieve_next_depth_def y yq)
    show ?thesis
    proof (cases "is_multiple n q")
      case (Inl e)
      with rest yq unf show ?thesis by simp
    next
      case (Inr b)
      show ?thesis
      proof (cases b)
        case True
        with Inr rest yq unf show ?thesis by simp
      next
        case False
        with Inr rest yq have "f c' ps' n = Some r" by simp
        from ih[OF this] Inr False unf show ?thesis by simp
      qed
    qed
  qed
qed

lemma for_loop_depth_least_factor:
  assumes "2 \<le> num_value n" "float_ok n"
    and "2 * sieve_bound (least_factor 2 (num_value n)) + 1 \<le> int d"
  shows "for_loop_depth d 2 [] n = Some (Inr (least_factor 2 (num_value n)))"
proof (rule for_loop_depth_finds)
  note lf = least_factor_2[OF assms(1)]
  show "2 \<le> least_factor 2 (num_value n)" by (rule lf(1))
  show "least_factor 2 (num_value n) dvd num_value n" by (rule lf(3))
  show "\<forall>k. 2 \<le> k \<and> k < least_factor 2 (num_value n) \<longrightarrow> \<not> k dvd num_value n" by (rule lf(4))
  show "fits n (least_factor 2 (num_value n))" using assms(1,2) by (rule least_factor_fits)
  show "2 * sieve_bound (least_factor 2 (num_value n)) + 1 \<le> int d" by (rule assms(3))
  show "(2::int) \<le> 2" by simp
  show "2 \<le> least_factor 2 (num_value n)" by (rule lf(1))
  show "\<forall>q\<in>set []. 2 \<le> q \<and> q < (2::int)" by simp
  show "int (length ([]::int list)) \<le> sieve_bound 2" by (simp add: sieve_bound_def)
  show "(2::int) < 2 \<longrightarrow> 2 \<in> set []" by simp
  show "(3::int) < 2 \<longrightarrow> 3 \<in> set []" by simp
qed

subsection \<open>The while loop\<close>

lemma while_loop_depth_1: "num_value n = 1 \<Longrightarrow> while_loop_depth d n fs = Some (Inr fs)"
  by (subst while_loop_depth.simps) simp

lemma while_loop_depth_step:
  "2 \<le> num_value n \<Longrightarrow> float_ok n \<Longrightarrow>
   2 * sieve_bound (least_factor 2 (num_value n)) + 1 \<le> int d \<Longrightarrow>
   while_loop_depth d n fs =
     (case true_div n (least_factor 2 (num_value n)) of
        Inl e \<Rightarrow> Some (Inl e)
      | Inr n' \<Rightarrow> while_loop_depth d n' (fs @ [least_factor 2 (num_value n)]))"
  by (subst while_loop_depth.simps) (simp add: for_loop_depth_least_factor)

lemma while_loop_depth_cases:
  assumes "while_loop n fs = Some r"
  shows "while_loop_depth d n fs = Some r
         \<or> while_loop_depth d n fs = Some (Inl RecursionError)"
proof (rule while_loop.raw_induct
    [where P = "\<lambda>n fs r. while_loop_depth d n fs = Some r
                  \<or> while_loop_depth d n fs = Some (Inl RecursionError)", OF _ assms])
  fix f :: "number \<Rightarrow> int list \<Rightarrow> int list result" and n fs r
  assume ih: "\<And>n fs r. f n fs = Some r \<Longrightarrow>
      while_loop_depth d n fs = Some r \<or> while_loop_depth d n fs = Some (Inl RecursionError)"
  assume eq: "(if num_value n \<noteq> 1 then
                 Option.bind (for_loop 2 [] n)
                   (\<lambda>r. case r of
                          Inl e \<Rightarrow> Some (Inl e)
                        | Inr p \<Rightarrow>
                            (case true_div n p of
                               Inl e \<Rightarrow> Some (Inl e)
                             | Inr n' \<Rightarrow> f n' (fs @ [p])))
               else Some (Inr fs)) = Some r"
  show "while_loop_depth d n fs = Some r \<or> while_loop_depth d n fs = Some (Inl RecursionError)"
  proof (cases "num_value n = 1")
    case True
    with eq show ?thesis by (simp add: while_loop_depth_1)
  next
    case False
    with eq obtain y where y: "for_loop 2 [] n = Some y"
      and rest: "(case y of
                    Inl e \<Rightarrow> Some (Inl e)
                  | Inr p \<Rightarrow>
                      (case true_div n p of
                         Inl e \<Rightarrow> Some (Inl e)
                       | Inr n' \<Rightarrow> f n' (fs @ [p]))) = Some r"
      by (auto simp: bind_eq_Some_conv)
    from for_loop_depth_cases[OF y, of d] show ?thesis
    proof
      assume "for_loop_depth d 2 [] n = Some (Inl RecursionError)"
      with False have "while_loop_depth d n fs = Some (Inl RecursionError)"
        by (subst while_loop_depth.simps) simp
      then show ?thesis ..
    next
      assume fl: "for_loop_depth d 2 [] n = Some y"
      with False have unf: "while_loop_depth d n fs =
          (case y of
             Inl e \<Rightarrow> Some (Inl e)
           | Inr p \<Rightarrow>
               (case true_div n p of
                  Inl e \<Rightarrow> Some (Inl e)
                | Inr n' \<Rightarrow> while_loop_depth d n' (fs @ [p])))"
        by (subst while_loop_depth.simps) simp
      show ?thesis
      proof (cases y)
        case (Inl e)
        with rest unf show ?thesis by simp
      next
        case (Inr p)
        show ?thesis
        proof (cases "true_div n p")
          case (Inl e)
          with rest unf \<open>y = Inr p\<close> show ?thesis by simp
        next
          case td: (Inr n')
          with rest \<open>y = Inr p\<close> have "f n' (fs @ [p]) = Some r" by simp
          from ih[OF this] td unf \<open>y = Inr p\<close> show ?thesis by simp
        qed
      qed
    qed
  qed
qed

lemma while_loop_depth_enough:
  assumes "1 \<le> num_value n" "float_ok n" "num_value n + 1 \<le> int d"
  shows "while_loop_depth d n fs = while_loop n fs"
  using assms
proof (induction "nat (num_value n)" arbitrary: n fs rule: less_induct)
  case less
  show ?case
  proof (cases "num_value n = 1")
    case True
    then show ?thesis by (simp add: while_loop_1 while_loop_depth_1)
  next
    case False
    with less.prems have n: "2 \<le> num_value n" by simp
    let ?p = "least_factor 2 (num_value n)"
    note p = least_factor_2[OF n]
    note fits = least_factor_fits[OF n less.prems(2)]
    from sieve_bound_half[OF p(1)] p(2) less.prems(3)
    have pd: "2 * sieve_bound ?p + 1 \<le> int d" by simp
    note step = while_loop_step[OF n less.prems(2)]
    note dstep = while_loop_depth_step[OF n less.prems(2) pd]
    show ?thesis
    proof (cases "true_div n ?p")
      case (Inl e)
      then show ?thesis by (simp add: step dstep)
    next
      case (Inr n')
      note n' = true_div_decreases[OF p(1) p(3) n fits Inr]
      from n'(1,2) have "nat (num_value n') < nat (num_value n)" by simp
      moreover from n'(2) less.prems(3) have "num_value n' + 1 \<le> int d" by simp
      ultimately have "while_loop_depth d n' (fs @ [?p]) = while_loop n' (fs @ [?p])"
        using n'(1,3) by (intro less.hyps)
      with Inr show ?thesis by (simp add: step dstep)
    qed
  qed
qed

lemma while_loop_depth_factors:
  assumes "1 \<le> num_value n" "float_ok n" "while_loop n fs = Some (Inr (fs @ t))"
    and "\<forall>p\<in>set t. 2 * sieve_bound p + 1 \<le> int d"
  shows "while_loop_depth d n fs = Some (Inr (fs @ t))"
  using assms
proof (induction "nat (num_value n)" arbitrary: n fs t rule: less_induct)
  case less
  show ?case
  proof (cases "num_value n = 1")
    case True
    with less.prems(3) show ?thesis by (simp add: while_loop_1 while_loop_depth_1)
  next
    case False
    with less.prems have n: "2 \<le> num_value n" by simp
    let ?p = "least_factor 2 (num_value n)"
    note p = least_factor_2[OF n]
    note fits = least_factor_fits[OF n less.prems(2)]
    note step = while_loop_step[OF n less.prems(2)]
    show ?thesis
    proof (cases "true_div n ?p")
      case (Inl e)
      with less.prems(3) show ?thesis by (simp add: step)
    next
      case (Inr n')
      note n' = true_div_decreases[OF p(1) p(3) n fits Inr]
      from Inr less.prems(3) have w: "while_loop n' (fs @ [?p]) = Some (Inr (fs @ t))"
        by (simp add: step)
      from while_loop_total[OF n'(1) n'(3), of "fs @ [?p]"] w
      obtain t' where "while_loop n' (fs @ [?p]) = Some (Inr ((fs @ [?p]) @ t'))" by auto
      with w have t: "t = ?p # t'" by simp
      with less.prems(4) have pd: "2 * sieve_bound ?p + 1 \<le> int d"
        and rest: "\<forall>q\<in>set t'. 2 * sieve_bound q + 1 \<le> int d"
        by simp_all
      from n'(1,2) have "nat (num_value n') < nat (num_value n)" by simp
      moreover from w t have "while_loop n' (fs @ [?p]) = Some (Inr ((fs @ [?p]) @ t'))" by simp
      ultimately have "while_loop_depth d n' (fs @ [?p]) = Some (Inr ((fs @ [?p]) @ t'))"
        using n'(1,3) rest by (intro less.hyps)
      with Inr t show ?thesis by (simp add: while_loop_depth_step[OF n less.prems(2) pd])
    qed
  qed
qed

subsection \<open>prime_factors, mu and M\<close>

lemma prime_factors_depth_cases:
  assumes "prime_factors n = Some r"
  shows "prime_factors_depth d n = Some r
         \<or> prime_factors_depth d n = Some (Inl RecursionError)"
  using assms while_loop_depth_cases[of "PyInt n" "[]" r "d - 1"]
  by (auto simp: prime_factors_def prime_factors_depth_def split: if_splits)

lemma prime_factors_depth_enough:
  assumes "1 \<le> n" "n + 2 \<le> int d"
  shows "prime_factors_depth d n = prime_factors n"
proof -
  from assms have "num_value (PyInt n) + 1 \<le> int (d - 1)" by simp
  with assms(1) have "while_loop_depth (d - 1) (PyInt n) [] = while_loop (PyInt n) []"
    by (intro while_loop_depth_enough) simp_all
  with assms show ?thesis by (simp add: prime_factors_def prime_factors_depth_def)
qed

lemma prime_factors_depth_factors:
  assumes "1 \<le> n" "prime_factors n = Some (Inr t)"
    and "\<forall>p\<in>set t. 2 * sieve_bound p + 2 \<le> int d" "1 \<le> d"
  shows "prime_factors_depth d n = Some (Inr t)"
proof (cases "n = 1")
  case True
  with assms(2,4) show ?thesis by (simp add: prime_factors_def prime_factors_depth_def)
next
  case False
  with assms(2) have w: "while_loop (PyInt n) [] = Some (Inr ([] @ t))"
    by (simp add: prime_factors_def)
  from assms(3,4) have "\<forall>p\<in>set t. 2 * sieve_bound p + 1 \<le> int (d - 1)" by auto
  with assms(1) w have "while_loop_depth (d - 1) (PyInt n) [] = Some (Inr ([] @ t))"
    by (intro while_loop_depth_factors) simp_all
  with False assms(4) show ?thesis by (simp add: prime_factors_depth_def)
qed

lemma mu_depth_of_prime_factors:
  "1 \<le> d \<Longrightarrow> prime_factors_depth (d - 1) n = prime_factors n \<Longrightarrow> mu_depth d n = mu n"
  by (simp add: mu_depth_def mu_def)

lemma mu_depth_cases:
  assumes "mu n = Some r"
  shows "mu_depth d n = Some r \<or> mu_depth d n = Some (Inl RecursionError)"
proof (cases "d = 0")
  case True
  then show ?thesis by (simp add: mu_depth_def)
next
  case False
  from assms obtain r' where r': "prime_factors n = Some r'"
    by (auto simp: mu_def bind_eq_Some_conv)
  from prime_factors_depth_cases[OF this, of "d - 1"] show ?thesis
  proof
    assume "prime_factors_depth (d - 1) n = Some r'"
    with r' False have "mu_depth d n = mu n" by (simp add: mu_depth_of_prime_factors)
    with assms show ?thesis by simp
  next
    assume "prime_factors_depth (d - 1) n = Some (Inl RecursionError)"
    with False show ?thesis by (simp add: mu_depth_def)
  qed
qed

lemma mu_depth_enough:
  assumes "1 \<le> n" "n + 3 \<le> int d"
  shows "mu_depth d n = mu n"
proof (rule mu_depth_of_prime_factors)
  from assms show "1 \<le> d" by simp
  from assms have "n + 2 \<le> int (d - 1)" by simp
  with assms(1) show "prime_factors_depth (d - 1) n = prime_factors n"
    by (rule prime_factors_depth_enough)
qed

lemma mu_depth_factors:
  assumes "1 \<le> n" "prime_factors n = Some (Inr t)"
    and "\<forall>p\<in>set t. 2 * sieve_bound p + 3 \<le> int d" "2 \<le> d"
  shows "mu_depth d n = mu n"
proof (rule mu_depth_of_prime_factors)
  from assms(4) show "1 \<le> d" by simp
  from assms(3,4) have "\<forall>p\<in>set t. 2 * sieve_bound p + 2 \<le> int (d - 1)" by auto
  moreover from assms(4) have "1 \<le> d - 1" by simp
  ultimately have "prime_factors_depth (d - 1) n = Some (Inr t)"
    using assms(1,2) by (intro prime_factors_depth_factors)
  with assms(2) show "prime_factors_depth (d - 1) n = prime_factors n" by simp
qed

lemma M_depth_0: "M_depth 0 n = Some (Inl RecursionError)"
  by (subst M_depth.simps) simp

lemma M_depth_1: "1 \<le> d \<Longrightarrow> M_depth d 1 = mu_depth (d - 1) 1"
  by (subst M_depth.simps) simp

lemma M_depth_rec:
  "1 \<le> d \<Longrightarrow> n \<noteq> 1 \<Longrightarrow>
   M_depth d n = plus_result (mu_depth (d - 1) n) (M_depth (d - 1) (n - 1))"
  by (subst M_depth.simps) (simp add: plus_result_def bind_result_def)

lemma plus_result_cases:
  assumes "a' = a \<or> a' = Some (Inl RecursionError)"
    and "b' = b \<or> b' = Some (Inl RecursionError)"
    and "returns a \<or> a = Some (Inl OverflowError)"
  shows "plus_result a' b' = plus_result a b
         \<or> plus_result a' b' = Some (Inl RecursionError)"
  using assms by (auto simp: plus_result_def returns_iff)

lemma M_depth_cases:
  assumes "1 \<le> n"
  shows "M_depth d n = M n \<or> M_depth d n = Some (Inl RecursionError)"
  using assms
proof (induction n arbitrary: d rule: int_ge_induct)
  case base
  show ?case
  proof (cases "d = 0")
    case True
    then show ?thesis by (simp add: M_depth_0)
  next
    case False
    with mu_depth_cases[OF mu_1, of "d - 1"] show ?thesis by (simp add: M_depth_1 M_1 mu_1)
  qed
next
  case (step i)
  show ?case
  proof (cases "d = 0")
    case True
    then show ?thesis by (simp add: M_depth_0)
  next
    case False
    from step.hyps have i: "i + 1 \<noteq> 1" "1 \<le> i + 1" by simp_all
    from mu_total[OF i(2)] have mu: "returns (mu (i + 1)) \<or> mu (i + 1) = Some (Inl OverflowError)"
      by auto
    then obtain r where "mu (i + 1) = Some r" by (auto simp: returns_iff)
    from mu_depth_cases[OF this, of "d - 1"] this
    have a: "mu_depth (d - 1) (i + 1) = mu (i + 1)
             \<or> mu_depth (d - 1) (i + 1) = Some (Inl RecursionError)" by simp
    note b = step.IH[of "d - 1"]
    from plus_result_cases[OF a b mu] False i(1) show ?thesis
      by (simp add: M_depth_rec M_rec)
  qed
qed

lemma M_depth_enough:
  assumes "1 \<le> n" "n + 4 \<le> int d"
  shows "M_depth d n = M n"
  using assms
proof (induction n arbitrary: d rule: int_ge_induct)
  case base
  then have "mu_depth (d - 1) 1 = mu 1" by (intro mu_depth_enough) simp_all
  with base show ?case by (simp add: M_depth_1 M_1)
next
  case (step i)
  from step.hyps step.prems have "mu_depth (d - 1) (i + 1) = mu (i + 1)"
    by (intro mu_depth_enough) simp_all
  moreover from step.prems have "M_depth (d - 1) i = M i" by (intro step.IH) simp
  ultimately show ?case using step.hyps step.prems by (simp add: M_depth_rec M_rec)
qed

lemma M_depth_too_deep:
  assumes "1 \<le> n" "n < 2 ^ 1024" "int d < n + 2"
  shows "M_depth d n = Some (Inl RecursionError)"
  using assms
proof (induction n arbitrary: d rule: int_ge_induct)
  case base
  then have "d = 0 \<or> d = 1 \<or> d = 2" by auto
  then show ?case
    by (auto simp: M_depth_0 M_depth_1 mu_depth_def prime_factors_depth_def)
next
  case (step i)
  show ?case
  proof (cases "d = 0")
    case True
    then show ?thesis by (simp add: M_depth_0)
  next
    case False
    from step.hyps have i: "i + 1 \<noteq> 1" "1 \<le> i + 1" by simp_all
    from mu_returns_in_range[OF i(2) step.prems(1)] obtain v where v: "mu (i + 1) = Some (Inr v)"
      by (auto simp: returns_iff)
    from step.prems False have "M_depth (d - 1) i = Some (Inl RecursionError)"
      by (intro step.IH) simp_all
    with mu_depth_cases[OF v, of "d - 1"] False i(1) show ?thesis
      by (auto simp: M_depth_rec plus_result_def)
  qed
qed

lemma mu_depth_4_3: "mu_depth 4 3 = Some (Inl RecursionError)"
proof -
  have "for_loop_depth 2 3 [2] (PyInt 3) = Some (Inl RecursionError)"
    by (rule for_loop_depth_too_deep) simp
  then have "for_loop_depth 2 2 [] (PyInt 3) = Some (Inl RecursionError)"
    by (subst for_loop_depth.simps) (simp add: sieve_next_depth_def sieve_next_first)
  then have "while_loop_depth 2 (PyInt 3) [] = Some (Inl RecursionError)"
    by (subst while_loop_depth.simps) simp
  then show ?thesis by (simp add: mu_depth_def prime_factors_depth_def)
qed

lemma M_depth_too_deep_from_3:
  assumes "3 \<le> n" "n < 2 ^ 1024" "int d < n + 3"
  shows "M_depth d n = Some (Inl RecursionError)"
  using assms
proof (induction n arbitrary: d rule: int_ge_induct)
  case base
  show ?case
  proof (cases "d = 5")
    case True
    then show ?thesis by (simp add: M_depth_rec mu_depth_4_3 plus_result_def)
  next
    case False
    with base have "int d < 3 + 2" by simp
    then show ?thesis by (intro M_depth_too_deep) simp_all
  qed
next
  case (step i)
  show ?case
  proof (cases "d = 0")
    case True
    then show ?thesis by (simp add: M_depth_0)
  next
    case False
    from step.hyps have i: "i + 1 \<noteq> 1" "1 \<le> i + 1" by simp_all
    from mu_returns_in_range[OF i(2) step.prems(1)] obtain v where v: "mu (i + 1) = Some (Inr v)"
      by (auto simp: returns_iff)
    from step.prems False have "M_depth (d - 1) i = Some (Inl RecursionError)"
      by (intro step.IH) simp_all
    with mu_depth_cases[OF v, of "d - 1"] False i(1) show ?thesis
      by (auto simp: M_depth_rec plus_result_def)
  qed
qed

lemma mu_depth_returns:
  assumes "mu_depth d n = mu n" "1 \<le> n" "n < 2 ^ 1024"
  shows "returns (mu_depth d n)"
  using assms mu_returns_in_range[of n] by simp

lemma M_depth_sum:
  assumes "1 \<le> n" "n + 4 \<le> int d"
  shows "M_depth d n =
     (if \<forall>k\<in>{1..n}. returns (mu_depth d k)
      then Some (Inr (\<Sum>k = 1..n. value_of (mu_depth d k)))
      else Some (Inl OverflowError))"
proof -
  have eq: "mu_depth d k = mu k" if "k \<in> {1..n}" for k
    using that assms(2) by (intro mu_depth_enough) simp_all
  then have "(\<forall>k\<in>{1..n}. returns (mu_depth d k)) \<longleftrightarrow> (\<forall>k\<in>{1..n}. returns (mu k))"
    by simp
  moreover have "(\<Sum>k = 1..n. value_of (mu_depth d k)) = (\<Sum>k = 1..n. value_of (mu k))"
    by (rule sum.cong) (simp_all add: eq)
  ultimately show ?thesis
    using M_sum[OF assms(1)] M_depth_enough[OF assms] by (simp del: atLeastAtMost_iff)
qed

lemma M_depth_base:
  assumes "5 \<le> d"
  shows "M_depth d 1 = mu_depth d 1" "mu_depth d 1 = Some (Inr 1)"
proof -
  from assms have "mu_depth d 1 = mu 1" by (intro mu_depth_enough) simp_all
  then show "mu_depth d 1 = Some (Inr 1)" by (simp add: mu_1)
  moreover from assms have "M_depth d 1 = M 1" by (intro M_depth_enough) simp_all
  ultimately show "M_depth d 1 = mu_depth d 1" by (simp add: M_1 mu_1)
qed

lemma M_depth_recurrence:
  assumes "1 < n" "n + 4 \<le> int d"
  shows "M_depth d n = plus_result (M_depth d (n - 1)) (mu_depth d n)"
proof -
  from assms have n: "1 \<le> n" "1 \<le> n - 1" "n \<noteq> 1" by simp_all
  from assms have "M_depth d n = M n" "M_depth d (n - 1) = M (n - 1)" "mu_depth d n = mu n"
    by (simp_all add: M_depth_enough mu_depth_enough)
  moreover have "plus_result (mu n) (M (n - 1)) = plus_result (M (n - 1)) (mu n)"
  proof (rule plus_result_commute)
    from mu_total[OF n(1)] show "returns (mu n) \<or> mu n = Some (Inl OverflowError)" by auto
    from n(2) show "returns (M (n - 1)) \<or> M (n - 1) = Some (Inl OverflowError)" by (rule M_total)
  qed
  ultimately show ?thesis using M_rec[OF n(3)] by simp
qed

subsection \<open>The sequence of values of M\<close>

lemma accumulate_depth_eq:
  "\<forall>k\<in>set ks. mu_depth d k = mu k \<Longrightarrow> accumulate_depth d s ks = accumulate s ks"
  by (induction ks arbitrary: s) simp_all

lemma forward_pass_depth_eq:
  assumes "\<forall>k\<in>{1..N}. mu_depth d k = mu k"
  shows "forward_pass_depth d N = forward_pass N"
proof (cases "N < 1")
  case True
  then show ?thesis by (simp add: forward_pass_depth_def forward_pass_def)
next
  case False
  with assms have "mu_depth d 1 = mu 1" by simp
  moreover from assms have "accumulate_depth d s [2..N] = accumulate s [2..N]" for s
    by (intro accumulate_depth_eq) simp
  ultimately show ?thesis by (simp add: forward_pass_depth_def forward_pass_def)
qed

lemma independently_depth_eq:
  "\<forall>k\<in>set ks. M_depth d k = M k \<Longrightarrow> independently_depth d ks = independently ks"
  by (induction ks) simp_all

lemma forward_pass_depth_independently:
  assumes "1 \<le> N" "N + 4 \<le> int d"
  shows "forward_pass_depth d N = independently_depth d [1..N]"
proof -
  have "\<forall>k\<in>{1..N}. mu_depth d k = mu k"
    using assms(2) by (auto intro!: mu_depth_enough)
  then have "forward_pass_depth d N = forward_pass N" by (rule forward_pass_depth_eq)
  moreover have "\<forall>k\<in>set [1..N]. M_depth d k = M k"
    using assms(2) by (auto intro!: M_depth_enough)
  then have "independently_depth d [1..N] = independently [1..N]"
    by (rule independently_depth_eq)
  ultimately show ?thesis using forward_pass_independently[OF assms(1)] by simp
qed

lemma forward_pass_values:
  assumes "1 \<le> N" "N < 2 ^ 1024"
  shows "forward_pass N = Some (Inr (map (\<lambda>n. \<Sum>k = 1..n. value_of (mu k)) [1..N]))"
proof -
  have ret: "returns (mu k)" if "1 \<le> k" "k \<le> N" for k
    using that assms(2) by (intro mu_returns_in_range) simp_all
  have "\<forall>k\<in>set [1..N]. returns (M k)"
    using assms(2) by (auto intro!: M_returns_in_range)
  then have "independently [1..N] = Some (Inr (map (\<lambda>n. value_of (M n)) [1..N]))"
    by (rule independently_values)
  moreover have "map (\<lambda>n. value_of (M n)) [1..N]
      = map (\<lambda>n. \<Sum>k = 1..n. value_of (mu k)) [1..N]"
  proof (rule map_cong[OF refl])
    fix n assume "n \<in> set [1..N]"
    then have n: "1 \<le> n" "n \<le> N" by simp_all
    then have "\<forall>k\<in>{1..n}. returns (mu k)" by (auto intro: ret)
    with M_sum[OF n(1)] show "value_of (M n) = (\<Sum>k = 1..n. value_of (mu k))"
      by (simp del: atLeastAtMost_iff)
  qed
  ultimately show ?thesis using forward_pass_independently[OF assms(1)] by simp
qed

lemma independently_depth_raises:
  assumes "\<forall>k\<in>set ks. 1 \<le> k \<and> k < 2 ^ 1024"
    and "\<exists>k\<in>set ks. M_depth d k = Some (Inl RecursionError)"
  shows "independently_depth d ks = Some (Inl RecursionError)"
  using assms
proof (induction ks)
  case Nil
  then show ?case by simp
next
  case (Cons k ks)
  from Cons.prems(1) have k: "1 \<le> k" "k < 2 ^ 1024" by simp_all
  from M_depth_cases[OF k(1), of d] show ?case
  proof
    assume "M_depth d k = Some (Inl RecursionError)"
    then show ?thesis by simp
  next
    assume eq: "M_depth d k = M k"
    from M_returns_in_range[OF k] obtain v where v: "M k = Some (Inr v)"
      by (auto simp: returns_iff)
    with eq Cons.prems(2) have "\<exists>j\<in>set ks. M_depth d j = Some (Inl RecursionError)" by auto
    with Cons.IH Cons.prems(1) have "independently_depth d ks = Some (Inl RecursionError)"
      by simp
    with eq v show ?thesis by simp
  qed
qed

lemma sieve_bound_is_prime:
  assumes "is_prime p"
  shows "2 * sieve_bound p + 1 \<le> p"
proof (cases "p \<le> 4")
  case True
  have "\<not> is_prime 4" unfolding is_prime_def by (auto intro!: exI[of _ 2])
  with assms True is_prime_ge_2[OF assms] have "p = 2 \<or> p = 3" by (cases "p = 4") auto
  then show ?thesis by (auto simp: sieve_bound_def)
next
  case False
  then have p5: "5 \<le> p" by simp
  have "\<not> 2 dvd p" "\<not> 3 dvd p" using assms p5 unfolding is_prime_def by auto
  then have "p mod 2 \<noteq> 0" "p mod 3 \<noteq> 0" by (simp_all add: dvd_eq_mod_eq_0)
  define m where "m = p div 6"
  define r where "r = p mod 6"
  have p: "p = 6 * m + r" by (simp add: m_def r_def)
  from \<open>p mod 2 \<noteq> 0\<close> \<open>p mod 3 \<noteq> 0\<close> have "r = 1 \<or> r = 5" unfolding r_def by presburger
  then show ?thesis
  proof
    assume "r = 1"
    with p have "p div 6 = m" "(p - 2) div 6 = m - 1" by simp_all
    with p5 p \<open>r = 1\<close> show ?thesis by (simp add: sieve_bound_def)
  next
    assume "r = 5"
    with p have "p div 6 = m" "(p - 2) div 6 = m" by simp_all
    with p5 p \<open>r = 5\<close> show ?thesis by (simp add: sieve_bound_def)
  qed
qed

lemma mu_depth_exact_enough:
  assumes "1 \<le> k" "k \<le> 2 ^ 54 + 1" "k + 2 \<le> int d"
  shows "mu_depth d k = mu k"
proof -
  from prime_factors_exact[OF assms(1,2)] obtain t where
    t: "prime_factors k = Some (Inr t)" "prod_list t = k" "\<forall>p\<in>set t. is_prime p" by blast
  have "\<forall>p\<in>set t. 2 * sieve_bound p + 3 \<le> int d"
  proof
    fix p assume p: "p \<in> set t"
    then have "p dvd k" using prod_list_dvd[of p t] t(2) by simp
    with assms(1) have "p \<le> k" using zdvd_imp_le[of p k] by simp
    moreover from p t(3) have "2 * sieve_bound p + 1 \<le> p" by (simp add: sieve_bound_is_prime)
    ultimately show "2 * sieve_bound p + 3 \<le> int d" using assms(3) by simp
  qed
  moreover from assms(1,3) have "2 \<le> d" by simp
  ultimately show ?thesis using assms(1) t(1) by (intro mu_depth_factors)
qed

lemma M_depth_exact_enough:
  assumes "1 \<le> n" "n \<le> 2 ^ 54 + 1" "n + 3 \<le> int d"
  shows "M_depth d n = M n"
  using assms
proof (induction n arbitrary: d rule: int_ge_induct)
  case base
  then have "mu_depth (d - 1) 1 = mu 1" by (intro mu_depth_exact_enough) simp_all
  with base show ?case by (simp add: M_depth_1 M_1)
next
  case (step i)
  from step.hyps step.prems have "mu_depth (d - 1) (i + 1) = mu (i + 1)"
    by (intro mu_depth_exact_enough) simp_all
  moreover from step.prems have "M_depth (d - 1) i = M i" by (intro step.IH) simp_all
  ultimately show ?case using step.hyps step.prems by (simp add: M_depth_rec M_rec)
qed

lemma M_depth_threshold:
  assumes "3 \<le> n" "n \<le> 2 ^ 54 + 1"
  shows "returns (M_depth d n) \<longleftrightarrow> n + 3 \<le> int d"
proof
  assume r: "returns (M_depth d n)"
  show "n + 3 \<le> int d"
  proof (rule ccontr)
    assume "\<not> n + 3 \<le> int d"
    then have "int d < n + 3" by simp
    moreover from assms(2) have "n < 2 ^ 1024" by simp
    ultimately have "M_depth d n = Some (Inl RecursionError)"
      using assms(1) by (intro M_depth_too_deep_from_3)
    with r show False by simp
  qed
next
  assume "n + 3 \<le> int d"
  with assms have "M_depth d n = M n" by (intro M_depth_exact_enough) simp_all
  moreover from assms have "returns (M n)" by (intro M_returns_in_range) simp_all
  ultimately show "returns (M_depth d n)" by simp
qed

subsection \<open>Arguments below 1\<close>

lemma for_loop_depth_sound:
  assumes "for_loop_depth d c ps n = Some r"
  shows "\<forall>p. r = Inr p \<longrightarrow> c \<le> p"
proof (rule for_loop_depth.raw_induct
    [where P = "\<lambda>d c ps n r. \<forall>p. r = Inr p \<longrightarrow> c \<le> p", OF _ assms])
  fix f :: "nat \<Rightarrow> int \<Rightarrow> int list \<Rightarrow> number \<Rightarrow> int result" and d c ps n r
  assume ih: "\<And>d c ps n r. f d c ps n = Some r \<Longrightarrow> \<forall>p. r = Inr p \<longrightarrow> c \<le> p"
  assume eq: "Option.bind (sieve_next_depth d c ps)
                (\<lambda>y. case y of
                       Inl e \<Rightarrow> Some (Inl e)
                     | Inr (q, c', ps') \<Rightarrow>
                         (case is_multiple n q of
                            Inl e \<Rightarrow> Some (Inl e)
                          | Inr b \<Rightarrow> if b then Some (Inr q) else f d c' ps' n)) = Some r"
  show "\<forall>p. r = Inr p \<longrightarrow> c \<le> p"
  proof (cases "d < 2 * length ps + 1")
    case True
    with eq show ?thesis by (auto simp: sieve_next_depth_def)
  next
    case False
    with eq obtain y where y: "sieve_next c ps = Some y"
      and rest: "(case y of (q, c', ps') \<Rightarrow>
                    case is_multiple n q of
                      Inl e \<Rightarrow> Some (Inl e)
                    | Inr b \<Rightarrow> if b then Some (Inr q) else f d c' ps' n) = Some r"
      by (auto simp: sieve_next_depth_def bind_eq_Some_conv)
    from sieve_next_sound[OF y] obtain q where q: "c \<le> q" "y = (q, q + 1, ps @ [q])" by auto
    show ?thesis
    proof (cases "is_multiple n q")
      case (Inl e)
      with rest q(2) show ?thesis by auto
    next
      case (Inr b)
      show ?thesis
      proof (cases b)
        case True
        with Inr rest q show ?thesis by auto
      next
        case False
        with Inr rest q(2) have "f d (q + 1) (ps @ [q]) n = Some r" by simp
        from ih[OF this] q(1) show ?thesis by auto
      qed
    qed
  qed
qed

lemma while_loop_depth_value_pos:
  assumes "while_loop_depth d n fs = Some r"
  shows "\<forall>v. r = Inr v \<longrightarrow> 1 \<le> num_value n"
proof (rule while_loop_depth.raw_induct
    [where P = "\<lambda>d n fs r. \<forall>v. r = Inr v \<longrightarrow> 1 \<le> num_value n", OF _ assms])
  fix f :: "nat \<Rightarrow> number \<Rightarrow> int list \<Rightarrow> int list result" and d n fs r
  assume ih: "\<And>d n fs r. f d n fs = Some r \<Longrightarrow> \<forall>v. r = Inr v \<longrightarrow> 1 \<le> num_value n"
  assume eq: "(if num_value n \<noteq> 1 then
                 Option.bind (for_loop_depth d 2 [] n)
                   (\<lambda>r. case r of
                          Inl e \<Rightarrow> Some (Inl e)
                        | Inr p \<Rightarrow>
                            (case true_div n p of
                               Inl e \<Rightarrow> Some (Inl e)
                             | Inr n' \<Rightarrow> f d n' (fs @ [p])))
               else Some (Inr fs)) = Some r"
  show "\<forall>v. r = Inr v \<longrightarrow> 1 \<le> num_value n"
  proof (cases "num_value n = 1")
    case True
    then show ?thesis by simp
  next
    case False
    with eq obtain y where y: "for_loop_depth d 2 [] n = Some y"
      and rest: "(case y of
                    Inl e \<Rightarrow> Some (Inl e)
                  | Inr p \<Rightarrow>
                      (case true_div n p of
                         Inl e \<Rightarrow> Some (Inl e)
                       | Inr n' \<Rightarrow> f d n' (fs @ [p]))) = Some r"
      by (auto simp: bind_eq_Some_conv)
    show ?thesis
    proof (cases y)
      case (Inl e)
      with rest show ?thesis by auto
    next
      case (Inr p)
      with for_loop_depth_sound[OF y] have p2: "2 \<le> p" by simp
      show ?thesis
      proof (cases "true_div n p")
        case (Inl e)
        with rest \<open>y = Inr p\<close> show ?thesis by auto
      next
        case td: (Inr n')
        with rest \<open>y = Inr p\<close> have "f d n' (fs @ [p]) = Some r" by simp
        from ih[OF this] have ih': "\<forall>v. r = Inr v \<longrightarrow> 1 \<le> num_value n'" .
        show ?thesis
        proof (intro allI impI)
          fix v assume "r = Inr v"
          with ih' have "1 \<le> num_value n'" by simp
          show "1 \<le> num_value n"
          proof (rule ccontr)
            assume "\<not> 1 \<le> num_value n"
            then have "num_value n \<le> 0" by simp
            from true_div_nonpos[OF p2 this td] \<open>1 \<le> num_value n'\<close> show False by simp
          qed
        qed
      qed
    qed
  qed
qed

lemma prime_factors_depth_value_pos: "prime_factors_depth d n = Some (Inr v) \<Longrightarrow> 1 \<le> n"
  using while_loop_depth_value_pos[of "d - 1" "PyInt n" "[]" "Inr v"]
  by (auto simp: prime_factors_depth_def split: if_splits)

lemma mu_depth_value_pos:
  assumes "mu_depth d n = Some (Inr v)"
  shows "1 \<le> n"
proof (cases "prime_factors_depth (d - 1) n")
  case None
  with assms show ?thesis by (simp add: mu_depth_def split: if_splits)
next
  case (Some r)
  show ?thesis
  proof (cases r)
    case (Inl e)
    with Some assms show ?thesis by (simp add: mu_depth_def split: if_splits)
  next
    case (Inr t)
    with Some show ?thesis by (simp add: prime_factors_depth_value_pos)
  qed
qed

lemma M_depth_value_pos:
  assumes "M_depth d n = Some (Inr w)"
  shows "1 \<le> n"
proof (cases "n = 1")
  case True
  then show ?thesis by simp
next
  case False
  from assms have d: "1 \<le> d" by (cases "d = 0") (simp_all add: M_depth_0)
  with assms False have "plus_result (mu_depth (d - 1) n) (M_depth (d - 1) (n - 1)) = Some (Inr w)"
    by (simp add: M_depth_rec)
  then obtain x where "mu_depth (d - 1) n = Some (Inr x)"
    by (cases "mu_depth (d - 1) n" rule: returns.cases) (simp_all add: plus_result_def)
  then show ?thesis by (rule mu_depth_value_pos)
qed

lemma for_loop_depth_at_0:
  assumes "num_value n = 0" "1 \<le> d"
  shows "for_loop_depth d 2 [] n = Some (Inr 2)"
proof -
  have "fits n 2" by (cases n) simp_all
  then have "is_multiple n 2 = Inr (num_value n mod 2 = 0)" by (rule is_multiple_fits)
  with assms(1) have "is_multiple n 2 = Inr True" by simp
  with assms(2) show ?thesis
    by (subst for_loop_depth.simps) (simp add: sieve_next_depth_def sieve_next_first)
qed

lemma while_loop_depth_at_0:
  assumes "num_value n = 0" "1 \<le> d"
  shows "while_loop_depth d n fs = None"
proof (cases "while_loop_depth d n fs")
  case None
  then show ?thesis .
next
  case (Some r)
  have "1 \<le> d \<longrightarrow> num_value n \<noteq> 0"
  proof (rule while_loop_depth.raw_induct
      [where P = "\<lambda>d n fs r. 1 \<le> d \<longrightarrow> num_value n \<noteq> 0", OF _ Some])
    fix f :: "nat \<Rightarrow> number \<Rightarrow> int list \<Rightarrow> int list result" and d n fs r
    assume ih: "\<And>d n fs r. f d n fs = Some r \<Longrightarrow> 1 \<le> d \<longrightarrow> num_value n \<noteq> 0"
    assume eq: "(if num_value n \<noteq> 1 then
                   Option.bind (for_loop_depth d 2 [] n)
                     (\<lambda>r. case r of
                            Inl e \<Rightarrow> Some (Inl e)
                          | Inr p \<Rightarrow>
                              (case true_div n p of
                                 Inl e \<Rightarrow> Some (Inl e)
                               | Inr n' \<Rightarrow> f d n' (fs @ [p])))
                 else Some (Inr fs)) = Some r"
    show "1 \<le> d \<longrightarrow> num_value n \<noteq> 0"
    proof (intro impI notI)
      assume d: "1 \<le> d" and n: "num_value n = 0"
      with eq have "f d (PyFloat 0) (fs @ [2]) = Some r"
        by (simp add: for_loop_depth_at_0[OF n d] true_div_0[OF n])
      from ih[OF this] d show False by simp
    qed
  qed
  with assms show ?thesis by simp
qed

lemma spin_at_0:
  assumes "4 \<le> d"
  shows "prime_factors_depth d 0 = None" "mu_depth d 0 = None" "M_depth d 0 = None"
proof -
  have pf: "prime_factors_depth e 0 = None" if "2 \<le> e" for e
    using that by (simp add: prime_factors_depth_def while_loop_depth_at_0)
  have m: "mu_depth e 0 = None" if "3 \<le> e" for e
    using that pf[of "e - 1"] by (simp add: mu_depth_def)
  from assms show "prime_factors_depth d 0 = None" by (intro pf) simp
  from assms show "mu_depth d 0 = None" by (intro m) simp
  from assms have "1 \<le> d" "3 \<le> d - 1" by simp_all
  from M_depth_rec[OF this(1), of 0] m[OF this(2)]
  show "M_depth d 0 = None" by (simp add: plus_result_def bind_result_def)
qed

lemma no_value_below_1_at_any_depth:
  assumes "n < 1"
  shows "prime_factors_depth d n \<noteq> Some (Inr fs)" "mu_depth d n \<noteq> Some (Inr v)"
    "M_depth d n \<noteq> Some (Inr w)"
  using assms prime_factors_depth_value_pos[of d n fs] mu_depth_value_pos[of d n v]
    M_depth_value_pos[of d n w]
  by auto

subsection \<open>The default limit of 1000 frames\<close>

text \<open>
  At the top level of a script 999 frames are left. Every \<open>mu(k)\<close> with \<open>k\<close> up to 997
  then returns, \<open>M(996)\<close> returns, and \<open>M(997)\<close> does not. The arguments at which the
  statements below
  evaluate \<open>prime_factors\<close> and \<open>mu\<close> take few frames, and the results are the same with
  999 frames as on a stack of any depth.
\<close>

lemma mu_depth_999:
  assumes "1 \<le> k" "k \<le> 997"
  shows "mu_depth 999 k = mu k"
proof -
  from assms have "k \<le> 2 ^ 54 + 1" by simp
  from prime_factors_exact[OF assms(1) this] obtain t where
    t: "prime_factors k = Some (Inr t)" "prod_list t = k" "\<forall>p\<in>set t. is_prime p" by blast
  have "\<forall>p\<in>set t. 2 * sieve_bound p + 3 \<le> int 999"
  proof
    fix p assume p: "p \<in> set t"
    then have "p dvd k" using prod_list_dvd[of p t] t(2) by simp
    with assms have "p \<le> 997" using zdvd_imp_le[of p k] by simp
    moreover from p t(3) have "2 \<le> p" by (simp add: is_prime_ge_2)
    ultimately show "2 * sieve_bound p + 3 \<le> int 999"
      using sieve_bound_third[of p] by simp
  qed
  with assms(1) t(1) show ?thesis by (intro mu_depth_factors) simp_all
qed

lemma M_depth_999: "M_depth 999 997 = Some (Inl RecursionError)"
  by (rule M_depth_too_deep_from_3) simp_all

lemma M_depth_996: "M_depth 999 996 = M 996"
  by (rule M_depth_exact_enough) simp_all

lemma failing_inputs_within_limit:
  "prime_factors_depth 999 157991512097943741 = prime_factors 157991512097943741"
  "prime_factors_depth 999 (2 ^ 54 + 2) = prime_factors (2 ^ 54 + 2)"
  "mu_depth 999 157991512097943741 = mu 157991512097943741"
  "mu_depth 999 5772333 = mu 5772333"
  "mu_depth 999 27370477777 = mu 27370477777"
proof -
  show "prime_factors_depth 999 157991512097943741 = prime_factors 157991512097943741"
    unfolding prime_factors_157991512097943741
    by (rule prime_factors_depth_factors)
      (simp_all add: prime_factors_157991512097943741 sieve_bound_def)
  show "prime_factors_depth 999 (2 ^ 54 + 2) = prime_factors (2 ^ 54 + 2)"
    using prime_factors_2_54
    by (simp add: prime_factors_depth_factors[of _ "replicate 54 2"] sieve_bound_def)
  show "mu_depth 999 157991512097943741 = mu 157991512097943741"
    by (rule mu_depth_factors[OF _ prime_factors_157991512097943741])
      (simp_all add: sieve_bound_def)
  show "mu_depth 999 5772333 = mu 5772333"
    by (rule mu_depth_factors[OF _ prime_factors_5772333]) (simp_all add: sieve_bound_def)
  show "mu_depth 999 27370477777 = mu 27370477777"
    by (rule mu_depth_factors[OF _ prime_factors_27370477777]) (simp_all add: sieve_bound_def)
qed

lemma overflow_within_limit:
  assumes "6 \<le> d"
  shows "prime_factors_depth d (2 ^ 1025) = Some (Inl OverflowError)"
    "mu_depth d (2 ^ 1025) = Some (Inl OverflowError)"
    "M_depth d (2 ^ 1025) = Some (Inl OverflowError)"
proof -
  have n: "2 \<le> num_value (PyInt (2 ^ 1025))" by simp
  have ok: "float_ok (PyInt (2 ^ 1025))" by simp
  have lf: "least_factor 2 (2 ^ 1025) = 2" by (subst least_factor.simps) simp
  have "(2::int) ^ 1024 \<le> 2 ^ 1025 div 2" by simp
  then have td: "true_div (PyInt (2 ^ 1025)) 2 = Inl OverflowError" by (rule true_div_overflow)
  have w: "while_loop_depth e (PyInt (2 ^ 1025)) [] = Some (Inl OverflowError)" if "3 \<le> e" for e
  proof -
    from that have "2 * sieve_bound (least_factor 2 (num_value (PyInt (2 ^ 1025)))) + 1 \<le> int e"
      unfolding num_value.simps lf by (simp add: sieve_bound_def)
    from while_loop_depth_step[OF n ok this, of "[]"] show ?thesis
      unfolding num_value.simps lf td by simp
  qed
  have ne: "(2::int) ^ 1025 \<noteq> 1" by simp
  have pf: "prime_factors_depth e (2 ^ 1025) = Some (Inl OverflowError)" if "4 \<le> e" for e
  proof -
    from that have "3 \<le> e - 1" "e \<noteq> 0" by simp_all
    with w[of "e - 1"] ne show ?thesis unfolding prime_factors_depth_def by simp
  qed
  have m: "mu_depth e (2 ^ 1025) = Some (Inl OverflowError)" if "5 \<le> e" for e
  proof -
    from that have "4 \<le> e - 1" "e \<noteq> 0" by simp_all
    with pf[of "e - 1"] show ?thesis unfolding mu_depth_def by simp
  qed
  from assms show "prime_factors_depth d (2 ^ 1025) = Some (Inl OverflowError)"
    by (intro pf) simp
  from assms show "mu_depth d (2 ^ 1025) = Some (Inl OverflowError)" by (intro m) simp
  from assms have "1 \<le> d" "5 \<le> d - 1" by simp_all
  from M_depth_rec[OF this(1) ne] m[OF this(2)]
  show "M_depth d (2 ^ 1025) = Some (Inl OverflowError)"
    unfolding plus_result_def by (simp only: bind_result_simps)
qed

lemma scenario_values_within_limit:
  "mu_depth 999 1 = mu 1" "mu_depth 999 2 = mu 2" "mu_depth 999 4 = mu 4"
  "mu_depth 999 6 = mu 6" "mu_depth 999 30 = mu 30"
  "M_depth 999 1 = M 1" "M_depth 999 2 = M 2" "M_depth 999 3 = M 3"
  "M_depth 999 4 = M 4" "M_depth 999 10 = M 10"
  "prime_factors_depth 999 1 = prime_factors 1"
  "prime_factors_depth 999 12 = prime_factors 12"
  "prime_factors_depth 999 17 = prime_factors 17"
  by (simp_all add: mu_depth_enough M_depth_enough prime_factors_depth_enough)

section \<open>The statements of the specification\<close>

text \<open>
  C1. For every integer \<open>n \<ge> 1\<close>, \<open>M(n)\<close> is the sum of \<open>mu(k)\<close> for \<open>k\<close> from 1 to
  \<open>n\<close>; \<open>M(1) = mu(1) = 1\<close> and \<open>M(n) = M(n - 1) + mu(n)\<close> for \<open>n > 1\<close>. With
  \<open>n + 4\<close> frames or more this is \<open>M_depth_sum\<close>, \<open>M_depth_base\<close> and
  \<open>M_depth_recurrence\<close>. The notebook leaves the recursion limit at 1000, and \<open>M\<close>
  takes a frame for each number from \<open>n\<close> down to 1: with the 999 frames that are left
  at the top level of a script, every \<open>mu(k)\<close> with \<open>k\<close> up to 997 returns, and
  \<open>M(997)\<close> raises \<^verbatim>\<open>RecursionError\<close>.
\<close>

theorem M_raises_recursion_error:
  "(\<forall>k\<in>{1..997}. returns (mu_depth 999 k))
   \<and> M_depth 999 997 = Some (Inl RecursionError)"
proof
  show "\<forall>k\<in>{1..997}. returns (mu_depth 999 k)"
  proof
    fix k :: int assume "k \<in> {1..997}"
    then have k: "1 \<le> k" "k \<le> 997" by simp_all
    from k have "k < 2 ^ 1024" by simp
    with mu_depth_999[OF k] k(1) show "returns (mu_depth 999 k)" by (rule mu_depth_returns)
  qed
  show "M_depth 999 997 = Some (Inl RecursionError)" by (rule M_depth_999)
qed

theorem M_raises_recursion_error_witness:
  "(997::int) \<in> {1..997} \<and> returns (mu_depth 999 997)
   \<and> M_depth 999 997 = Some (Inl RecursionError)"
  using M_raises_recursion_error by simp

text \<open>
  C2. \<open>mu(n) = 0\<close> for an \<open>n\<close> with a squared prime factor, and \<open>mu(n) = (-1) ^ k\<close> for
  a squarefree \<open>n\<close> with \<open>k\<close> distinct prime factors. Up to \<open>2 ^ 54 + 1\<close>, and with
  frames enough, this is \<open>mu_exact\<close>. The code breaks it at the product of twelve
  distinct primes below (\<open>squarefree_157991512097943741\<close>), where it returns 0: the
  quotient by 3 is not a double, and the double nearest to it is a multiple of 4.
\<close>

theorem mu_of_twelve_primes:
  "157991512097943741 = 3 * 7 * 17 * 19 * 23 * 37 * 43 * 47 * 53 * 59 * 61 * (71::int)
   \<and> mu 157991512097943741 = Some (Inr 0)"
  by (simp add: mu_157991512097943741)

text \<open>
  C3. \<open>mu(n)\<close> is one of \<open>-1, 0, 1\<close> for every \<open>n \<ge> 1\<close>. Below \<open>2 ^ 1024\<close>, and with
  frames enough, this is \<open>mu_returns_in_range\<close> with \<open>mu_range\<close>. At
  \<open>n = 2 ^ 1025\<close> the call returns no value: the division by 2 raises
  \<^verbatim>\<open>OverflowError\<close>.
\<close>

theorem mu_raises_overflow: "mu (2 ^ 1025) = Some (Inl OverflowError)"
  by (rule mu_overflow)

text \<open>
  C4. The product of \<open>prime_factors(n)\<close> is \<open>n\<close>. Up to \<open>2 ^ 54 + 1\<close>, and with frames
  enough, this is \<open>prime_factors_exact\<close>. At \<open>n = 2 ^ 54 + 2\<close> the quotient by 2 is
  \<open>2 ^ 53 + 1\<close>, which is not a double; the code goes on with \<open>2 ^ 53\<close> and returns 54
  times the factor 2.
\<close>

theorem prime_factors_product_differs:
  "prime_factors (2 ^ 54 + 2) = Some (Inr (replicate 54 2))
   \<and> prod_list (replicate 54 (2::int)) = 2 ^ 54
   \<and> (2::int) ^ 54 \<noteq> 2 ^ 54 + 2"
  using prime_factors_2_54 by simp

text \<open>
  C5. \<open>prime_factors(n)\<close> is the sequence of the prime factors of \<open>n\<close> in non-decreasing
  order. Up to \<open>2 ^ 54 + 1\<close>, and with frames enough, this is \<open>prime_factors_exact\<close>.
  At the odd number below the code returns a sequence that starts 3, 2, 2: it is not in
  order, and 2 is no factor.
\<close>

theorem prime_factors_not_sorted:
  "prime_factors 157991512097943741 =
     Some (Inr [3, 2, 2, 2, 2, 2, 2, 11, 11, 73, 101, 101, 151, 197, 307])
   \<and> \<not> sorted [3, 2, 2, 2, 2, 2, 2, 11, 11, 73, 101, 101, 151, 197, 307 :: int]
   \<and> odd (157991512097943741::int)"
  by (simp add: prime_factors_157991512097943741)

text \<open>
  C6, as the specification states it: a call with \<open>n < 1\<close> fails with an
  invalid-argument error. The notebook checks no argument, and at \<open>n = 0\<close> none of the
  three calls returns or raises: the loop divides 0 by 2 for ever. It does so with any
  number of frames from 4 on (\<open>spin_at_0\<close>).
\<close>

theorem invalid_argument_counterexample:
  "prime_factors 0 = None \<and> mu 0 = None \<and> M 0 = None"
  by (simp add: prime_factors_0 mu_0 M_0)

text \<open>
  C6, amended. A call of \<open>prime_factors\<close>, \<open>mu\<close> or \<open>M\<close> with \<open>n < 1\<close> never returns a
  value, so it produces no wrong result. This holds with any number of frames as well
  (\<open>no_value_below_1_at_any_depth\<close>).
\<close>

theorem no_value_below_1:
  assumes "n < 1"
  shows "prime_factors n \<noteq> Some (Inr fs) \<and> mu n \<noteq> Some (Inr v) \<and> M n \<noteq> Some (Inr w)"
  using assms prime_factors_value_pos[of n fs] mu_value_pos[of n v] M_value_pos[of n w]
  by auto

theorem no_value_below_1_witness:
  "(0::int) < 1 \<and> prime_factors 0 \<noteq> Some (Inr []) \<and> mu 0 \<noteq> Some (Inr 1)
   \<and> M 0 \<noteq> Some (Inr 1)"
  using no_value_below_1[of 0 "[]" 1 1] by simp

text \<open>
  C7. For every \<open>n \<ge> 1\<close> the three functions terminate, the trial division reaches the
  quotient 1 and the recursion of \<open>M\<close> reaches its base case. On a stack of any depth
  the calls do terminate (\<open>prime_factors_total\<close>, \<open>mu_total\<close>, \<open>M_total\<close>), and below
  \<open>2 ^ 1024\<close> with a value.
  At \<open>n = 2 ^ 1025\<close> both calls end in the first division, which raises
  \<^verbatim>\<open>OverflowError\<close>.
\<close>

theorem trial_division_raises_overflow:
  "prime_factors (2 ^ 1025) = Some (Inl OverflowError)
   \<and> M (2 ^ 1025) = Some (Inl OverflowError)"
proof
  show "prime_factors (2 ^ 1025) = Some (Inl OverflowError)" by (rule prime_factors_overflow)
  have "(2::int) ^ 1025 \<noteq> 1" by simp
  then have "M (2 ^ 1025) = plus_result (mu (2 ^ 1025)) (M (2 ^ 1025 - 1))" by (rule M_rec)
  then show "M (2 ^ 1025) = Some (Inl OverflowError)"
    unfolding mu_overflow plus_result_def bind_result_simps .
qed

text \<open>
  C8. For every \<open>N \<ge> 1\<close> the single forward accumulation pass yields the same sequence
  as computing \<open>M(1), \<dots>, M(N)\<close> independently by the recursive definition. With
  \<open>N + 4\<close> frames or more it does (\<open>forward_pass_depth_independently\<close>). With the 999
  frames that are left at the top level of a script, the forward pass for \<open>N = 997\<close>
  returns the 997 sums of the values of \<open>mu\<close>, and the notebook's
  \<^verbatim>\<open>[M(n) for n in ns]\<close> raises \<^verbatim>\<open>RecursionError\<close>.
\<close>

theorem independent_values_raise_recursion_error:
  "independently_depth 999 [1..997] = Some (Inl RecursionError)
   \<and> forward_pass_depth 999 997
       = Some (Inr (map (\<lambda>n. \<Sum>k = 1..n. value_of (mu_depth 999 k)) [1..997]))"
proof
  show "independently_depth 999 [1..997] = Some (Inl RecursionError)"
  proof (rule independently_depth_raises)
    show "\<forall>k\<in>set [1..997]. 1 \<le> k \<and> k < 2 ^ 1024" by simp
    show "\<exists>k\<in>set [1..997]. M_depth 999 k = Some (Inl RecursionError)"
      using M_depth_999 by (intro bexI[of _ 997]) simp_all
  qed
  have eq: "\<forall>k\<in>{1..997}. mu_depth 999 k = mu k" by (simp add: mu_depth_999)
  then have "forward_pass_depth 999 997 = forward_pass 997" by (rule forward_pass_depth_eq)
  also have "\<dots> = Some (Inr (map (\<lambda>n. \<Sum>k = 1..n. value_of (mu k)) [1..997]))"
    by (rule forward_pass_values) simp_all
  also have "map (\<lambda>n. \<Sum>k = 1..n. value_of (mu k)) [1..997]
      = map (\<lambda>n. \<Sum>k = 1..n. value_of (mu_depth 999 k)) [1..997]"
  proof (rule map_cong[OF refl])
    fix n :: int assume "n \<in> set [1..997]"
    then have "n \<le> 997" by simp
    then show "(\<Sum>k = 1..n. value_of (mu k)) = (\<Sum>k = 1..n. value_of (mu_depth 999 k))"
      by (intro sum.cong) (simp_all add: mu_depth_999)
  qed
  finally show "forward_pass_depth 999 997
      = Some (Inr (map (\<lambda>n. \<Sum>k = 1..n. value_of (mu_depth 999 k)) [1..997]))" .
qed

text \<open>
  C9. The values of the scenarios: \<open>mu(1) = 1\<close>, \<open>mu(2) = -1\<close>, \<open>mu(4) = 0\<close>,
  \<open>mu(6) = 1\<close>, \<open>mu(30) = -1\<close>; \<open>M(1) = 1\<close>, \<open>M(2) = 0\<close>, \<open>M(3) = -1\<close>,
  \<open>M(4) = -1\<close>, \<open>M(10) = -1\<close>; \<open>prime_factors(1)\<close> is empty, \<open>prime_factors(12)\<close> is
  2, 2, 3 and \<open>prime_factors(17)\<close> is 17. The calls take few frames
  (\<open>scenario_values_within_limit\<close>).
\<close>

theorem scenario_values:
  "mu 1 = Some (Inr 1) \<and> mu 2 = Some (Inr (- 1)) \<and> mu 4 = Some (Inr 0)
   \<and> mu 6 = Some (Inr 1) \<and> mu 30 = Some (Inr (- 1))
   \<and> M 1 = Some (Inr 1) \<and> M 2 = Some (Inr 0) \<and> M 3 = Some (Inr (- 1))
   \<and> M 4 = Some (Inr (- 1)) \<and> M 10 = Some (Inr (- 1))
   \<and> prime_factors 1 = Some (Inr []) \<and> prime_factors 12 = Some (Inr [2, 2, 3])
   \<and> prime_factors 17 = Some (Inr [17])"
  by (simp add: mu_values M_values prime_factors_1 prime_factors_12 prime_factors_17)

text \<open>
  C10. \<open>mu(a * b) = mu(a) * mu(b)\<close> for coprime \<open>a, b \<ge> 1\<close>. For \<open>a * b\<close> up to
  \<open>2 ^ 54 + 1\<close>, and with frames enough, this is \<open>mu_multiplicative_exact\<close>. The code breaks it at the two coprime
  numbers below: \<open>mu\<close> returns 1 for each and 0 for their product.
\<close>

theorem mu_not_multiplicative:
  "gcd (5772333::int) 27370477777 = 1
   \<and> mu 5772333 = Some (Inr 1) \<and> mu 27370477777 = Some (Inr 1)
   \<and> mu (5772333 * 27370477777) = Some (Inr 0)"
proof -
  have "gcd (5772333::int) 27370477777 = 1" by (simp add: gcd_non_0_int)
  then show ?thesis by (simp add: mu_5772333 mu_27370477777 mu_157991512097943741)
qed

end
